theory Spec2Isabelle
  imports Complex_Main "HOL-Library.Option_ord" "HOL-Library.Char_ord" "HOL-Library.List_Lexorder"
    "HOL-Library.Multiset"
begin

section \<open>The job table\<close>

text \<open>
  The table \<^verbatim>\<open>analysis_jobs\<close> of \<^verbatim>\<open>worker.js\<close> (created in \<^verbatim>\<open>initDatabase\<close>): one
  record per row, the table itself a list of rows in rowid order, which for this table
  is the order of insertion. The column \<^verbatim>\<open>status\<close> only ever receives the four
  literals \<^verbatim>\<open>'queued'\<close>, \<^verbatim>\<open>'processing'\<close>, \<^verbatim>\<open>'done'\<close>, \<^verbatim>\<open>'error'\<close>. Timestamps
  are the integers of \<^verbatim>\<open>Date.now()\<close>; every reading of the clock is a parameter of
  the operation that reads it. SQL \<^verbatim>\<open>NULL\<close> is \<open>None\<close>.
\<close>

datatype status = Queued | Processing | Done | Error

record job =
  job_id :: string
  user_id :: string
  message_id :: string
  created_at :: int
  status :: status
  attempt :: int
  started_at :: "int option"
  finished_at :: "int option"
  result_tf :: "string option"
  last_error :: "string option"

text \<open>The object \<^verbatim>\<open>claimNextQueuedJob\<close> returns for a claimed job.\<close>

record claimed_job =
  cj_job_id :: string
  cj_message_id :: string
  cj_created_at :: int
  cj_attempt :: int
  cj_started_at :: int

subsection \<open>Job identifiers\<close>

text \<open>
  \<^verbatim>\<open>`${Date.now()}_${userId.slice(-6)}_${messageId}`\<close>: the decimal rendering of the
  clock reading, the last six characters of the user id, and the message id.
\<close>

definition digit_char :: "nat \<Rightarrow> char" where
  "digit_char d = ''0123456789'' ! d"

fun dec_nat :: "nat \<Rightarrow> string" where
  "dec_nat n = (if n < 10 then [digit_char n] else dec_nat (n div 10) @ [digit_char (n mod 10)])"

declare dec_nat.simps [simp del]

definition numberToString :: "int \<Rightarrow> string" where
  "numberToString i = (if i < 0 then CHR ''-'' # dec_nat (nat (- i)) else dec_nat (nat i))"

definition slice_last :: "nat \<Rightarrow> string \<Rightarrow> string" where
  "slice_last n s = drop (length s - n) s"

definition makeJobId :: "int \<Rightarrow> string \<Rightarrow> string \<Rightarrow> string" where
  "makeJobId now userId messageId =
     numberToString now @ ''_'' @ slice_last 6 userId @ ''_'' @ messageId"

text \<open>Reading the decimal rendering back, used to show that it loses nothing.\<close>

definition digit_val :: "char \<Rightarrow> nat" where
  "digit_val c = length (takeWhile (\<lambda>x. x \<noteq> c) ''0123456789'')"

definition dec_val :: "string \<Rightarrow> nat" where
  "dec_val cs = foldl (\<lambda>a c. 10 * a + digit_val c) 0 cs"

subsection \<open>Queries\<close>

definition count_status :: "string \<Rightarrow> status \<Rightarrow> job list \<Rightarrow> nat" where
  "count_status userId s db = length (filter (\<lambda>j. user_id j = userId \<and> status j = s) db)"

text \<open>\<^verbatim>\<open>getUserQueueStats\<close>: \<open>(queued_count, processing_count)\<close>.\<close>

definition getUserQueueStats :: "string \<Rightarrow> job list \<Rightarrow> nat \<times> nat" where
  "getUserQueueStats userId db = (count_status userId Queued db, count_status userId Processing db)"

definition hasQueuedJobs :: "string \<Rightarrow> job list \<Rightarrow> bool" where
  "hasQueuedJobs userId db = (count_status userId Queued db > 0)"

text \<open>
  \<^verbatim>\<open>ORDER BY finished_at DESC\<close> over rows selected by \<^verbatim>\<open>user_id\<close> and \<^verbatim>\<open>status\<close>.
  The rows reach the sorter through the index on \<^verbatim>\<open>(user_id, status, created_at)\<close>,
  that is by \<^verbatim>\<open>created_at\<close> and, within one \<^verbatim>\<open>created_at\<close>, by rowid; rows with
  equal \<^verbatim>\<open>finished_at\<close> stay in that order. SQLite sorts \<^verbatim>\<open>NULL\<close> below every
  integer, so in descending order the rows without \<^verbatim>\<open>finished_at\<close> come last.
\<close>

definition index_scan :: "job list \<Rightarrow> job list" where
  "index_scan rows = sort_key created_at rows"

definition order_by_finished_desc :: "job list \<Rightarrow> job list" where
  "order_by_finished_desc rows =
     sort_key (\<lambda>j. - the (finished_at j)) (filter (\<lambda>j. finished_at j \<noteq> None) (index_scan rows))
     @ filter (\<lambda>j. finished_at j = None) (index_scan rows)"

subsection \<open>Operations of the job store\<close>

text \<open>
  \<^verbatim>\<open>enqueueAnalysisJob\<close>. The clock is read twice, once inside \<^verbatim>\<open>makeJobId\<close>
  (\<open>idNow\<close>) and once for \<^verbatim>\<open>createdAt\<close>. \<^verbatim>\<open>INSERT OR IGNORE\<close> on the primary key
  \<^verbatim>\<open>job_id\<close>: nothing is inserted when a row with this id exists. The returned object
  is built from the values computed in this call.
\<close>

definition new_row :: "string \<Rightarrow> string \<Rightarrow> string \<Rightarrow> int \<Rightarrow> job" where
  "new_row jobId userId messageId createdAt =
     \<lparr>job_id = jobId, user_id = userId, message_id = messageId, created_at = createdAt,
      status = Queued, attempt = 0, started_at = None, finished_at = None, result_tf = None,
      last_error = None\<rparr>"

definition enqueueAnalysisJob ::
  "int \<Rightarrow> int \<Rightarrow> string \<Rightarrow> string \<Rightarrow> job list \<Rightarrow> job list \<times> (string \<times> int)" where
  "enqueueAnalysisJob idNow createdAt userId messageId db =
     (let jobId = makeJobId idNow userId messageId;
          row = new_row jobId userId messageId createdAt
      in (if jobId \<in> set (map job_id db) then db else db @ [row], (jobId, createdAt)))"

text \<open>
  \<^verbatim>\<open>claimNextQueuedJob\<close>: the count of processing rows of the user, the oldest queued
  row (\<^verbatim>\<open>ORDER BY created_at ASC LIMIT 1\<close>, equal keys in rowid order as the index on
  \<^verbatim>\<open>(user_id, status, created_at)\<close> delivers them), the conditional update, and the
  check of the number of changed rows.
\<close>

definition claim_update :: "int \<Rightarrow> string \<Rightarrow> job \<Rightarrow> job" where
  "claim_update startedAt jobId j =
     (if job_id j = jobId \<and> status j = Queued
      then j\<lparr>status := Processing, started_at := Some startedAt, last_error := None\<rparr>
      else j)"

definition claimNextQueuedJob ::
  "int \<Rightarrow> string \<Rightarrow> job list \<Rightarrow> job list \<times> claimed_job option" where
  "claimNextQueuedJob startedAt userId db =
     (if count_status userId Processing db > 0 then (db, None)
      else case sort_key created_at (filter (\<lambda>j. user_id j = userId \<and> status j = Queued) db) of
        [] \<Rightarrow> (db, None)
      | nxt # _ \<Rightarrow>
          if job_id nxt = [] then (db, None)
          else
            let changes = length (filter (\<lambda>j. job_id j = job_id nxt \<and> status j = Queued) db);
                db' = map (claim_update startedAt (job_id nxt)) db
            in if changes = 0 then (db', None)
               else (db', Some \<lparr>cj_job_id = job_id nxt, cj_message_id = message_id nxt,
                                cj_created_at = created_at nxt, cj_attempt = attempt nxt,
                                cj_started_at = startedAt\<rparr>))"

text \<open>
  \<^verbatim>\<open>requeueJob\<close>: an update by \<^verbatim>\<open>job_id\<close> alone;
  \<^verbatim>\<open>lastError ? String(lastError).slice(0, 800) : null\<close>.
\<close>

definition requeue_update :: "string \<Rightarrow> int \<Rightarrow> string \<Rightarrow> job \<Rightarrow> job" where
  "requeue_update jobId att lastError j =
     (if job_id j = jobId
      then j\<lparr>status := Queued, attempt := att, started_at := None,
             last_error := (if lastError = [] then None else Some (take 800 lastError))\<rparr>
      else j)"

definition requeueJob :: "string \<Rightarrow> int \<Rightarrow> string \<Rightarrow> job list \<Rightarrow> job list" where
  "requeueJob jobId att lastError db = map (requeue_update jobId att lastError) db"

text \<open>
  \<^verbatim>\<open>pruneDoneJobHistory\<close>: \<^verbatim>\<open>keep = Math.max(1, Math.floor(Number(keepCount || 5)))\<close>,
  then the \<^verbatim>\<open>DELETE\<close> of the user's done rows that are not among the first \<open>keep\<close> in
  descending order of \<^verbatim>\<open>finished_at\<close>.
\<close>

definition pruneDoneJobHistory :: "string \<Rightarrow> int \<Rightarrow> job list \<Rightarrow> job list" where
  "pruneDoneJobHistory userId keepCount db =
     (let keep = nat (max 1 (if keepCount = 0 then 5 else keepCount));
          kept = map job_id (take keep (order_by_finished_desc
                   (filter (\<lambda>j. user_id j = userId \<and> status j = Done) db)))
      in filter (\<lambda>j. \<not> (user_id j = userId \<and> status j = Done \<and> job_id j \<notin> set kept)) db)"

text \<open>
  \<^verbatim>\<open>markJobDone\<close>: the update by \<^verbatim>\<open>job_id\<close> (\<^verbatim>\<open>resultTF || null\<close>), then the lookup
  of the row's user and, when \<^verbatim>\<open>row?.user_id\<close> is truthy, the pruning with 5.
\<close>

definition done_update :: "string \<Rightarrow> int \<Rightarrow> string \<Rightarrow> job \<Rightarrow> job" where
  "done_update jobId finishedAt resultTF j =
     (if job_id j = jobId
      then j\<lparr>status := Done, finished_at := Some finishedAt,
             result_tf := (if resultTF = [] then None else Some resultTF)\<rparr>
      else j)"

definition markJobDone :: "string \<Rightarrow> int \<Rightarrow> string \<Rightarrow> job list \<Rightarrow> job list" where
  "markJobDone jobId finishedAt resultTF db =
     (let db1 = map (done_update jobId finishedAt resultTF) db
      in case find (\<lambda>j. job_id j = jobId) db1 of
           None \<Rightarrow> db1
         | Some row \<Rightarrow> if user_id row \<noteq> [] then pruneDoneJobHistory (user_id row) 5 db1 else db1)"

text \<open>\<^verbatim>\<open>markJobError\<close>: \<^verbatim>\<open>String(errMsg || '').slice(0, 800)\<close>.\<close>

definition error_update :: "string \<Rightarrow> int \<Rightarrow> string \<Rightarrow> job \<Rightarrow> job" where
  "error_update jobId finishedAt errMsg j =
     (if job_id j = jobId
      then j\<lparr>status := Error, finished_at := Some finishedAt,
             last_error := Some (take 800 errMsg)\<rparr>
      else j)"

definition markJobError :: "string \<Rightarrow> int \<Rightarrow> string \<Rightarrow> job list \<Rightarrow> job list" where
  "markJobError jobId finishedAt errMsg db = map (error_update jobId finishedAt errMsg) db"

subsection \<open>Sequences of store operations\<close>

datatype store_op =
    Enqueue int int string string
  | ClaimNext int string
  | Requeue string int string
  | MarkDone string int string
  | MarkError string int string

fun apply_op :: "store_op \<Rightarrow> job list \<Rightarrow> job list" where
  "apply_op (Enqueue idNow createdAt u m) db = fst (enqueueAnalysisJob idNow createdAt u m db)"
| "apply_op (ClaimNext t u) db = fst (claimNextQueuedJob t u db)"
| "apply_op (Requeue i a e) db = requeueJob i a e db"
| "apply_op (MarkDone i t tf) db = markJobDone i t tf db"
| "apply_op (MarkError i t e) db = markJobError i t e db"

definition run_ops :: "store_op list \<Rightarrow> job list \<Rightarrow> job list" where
  "run_ops ops db = foldl (\<lambda>d operation. apply_op operation d) db ops"

fun is_claim :: "store_op \<Rightarrow> bool" where
  "is_claim (ClaimNext t u) = True"
| "is_claim _ = False"

text \<open>No last_error on a job in flight.\<close>

definition in_flight_clean :: "job \<Rightarrow> bool" where
  "in_flight_clean j = (status j = Processing \<longrightarrow> last_error j = None)"


subsection \<open>Draining a user's queue\<close>

text \<open>
  The scenario of the FIFO property: cycles of \<^verbatim>\<open>claimNextQueuedJob\<close> followed by
  \<^verbatim>\<open>markJobDone\<close> of the claimed job, until a claim returns none. Each cycle comes
  with its two clock readings and the timeframe it records; the ids are collected in the
  order of the claims.
\<close>

fun drain :: "string \<Rightarrow> (int \<times> int \<times> string) list \<Rightarrow> job list \<Rightarrow> string list \<times> job list" where
  "drain u [] db = ([], db)"
| "drain u ((tc, td, tf) # cycles) db =
     (case claimNextQueuedJob tc u db of
        (db1, None) \<Rightarrow> ([], db1)
      | (db1, Some c) \<Rightarrow>
          (case drain u cycles (markJobDone (cj_job_id c) td tf db1) of
             (ids, db2) \<Rightarrow> (cj_job_id c # ids, db2)))"

definition queued_of :: "string \<Rightarrow> job list \<Rightarrow> job list" where
  "queued_of u db = filter (\<lambda>j. user_id j = u \<and> status j = Queued) db"

subsection \<open>The rows a pruning keeps\<close>

text \<open>
  Names for the two row sets of the \<^verbatim>\<open>DELETE\<close> in \<^verbatim>\<open>pruneDoneJobHistory\<close>: the
  user's done rows, and the rows of its subquery.
\<close>

definition done_of :: "string \<Rightarrow> job list \<Rightarrow> job list" where
  "done_of u db = filter (\<lambda>j. user_id j = u \<and> status j = Done) db"

definition kept_rows :: "string \<Rightarrow> int \<Rightarrow> job list \<Rightarrow> job list" where
  "kept_rows u keepCount db =
     take (nat (max 1 (if keepCount = 0 then 5 else keepCount))) (order_by_finished_desc (done_of u db))"

subsection \<open>An example table\<close>

text \<open>
  A table with five completed jobs of user \<open>U1\<close>, one job in flight, one queued job and a
  completed job of another user; the concrete input of several statements below.
\<close>

definition finished_row :: "string \<Rightarrow> string \<Rightarrow> int \<Rightarrow> int \<Rightarrow> int \<Rightarrow> job" where
  "finished_row i u c s f =
     (new_row i u i c)\<lparr>status := Done, started_at := Some s, finished_at := Some f,
                       result_tf := Some ''H1''\<rparr>"

definition in_flight_row :: job where
  "in_flight_row = (new_row ''p'' ''U1'' ''p'' 7)\<lparr>status := Processing, started_at := Some 51\<rparr>"

definition example_history :: "job list" where
  "example_history =
     [finished_row ''d1'' ''U1'' 1 2 10, finished_row ''d2'' ''U1'' 3 11 20,
      finished_row ''d3'' ''U1'' 4 21 30, finished_row ''d4'' ''U1'' 5 31 40,
      finished_row ''d5'' ''U1'' 6 41 50, in_flight_row, new_row ''q'' ''U1'' ''q'' 8,
      finished_row ''o'' ''U2'' 9 12 13]"

section \<open>The job processor\<close>

subsection \<open>Analysis results and their stored form\<close>

text \<open>
  The result object of \<^verbatim>\<open>analyzeChartStructured\<close>, reduced to the fields the processor
  reads or rewrites: \<^verbatim>\<open>detected_tf\<close>, \<^verbatim>\<open>request_update_for_tf\<close> (absent or null, an
  array, or a plain string), \<^verbatim>\<open>reasoning_trace\<close>, and of \<^verbatim>\<open>detailed_technical_data\<close>
  the fields \<^verbatim>\<open>trade_setup\<close>, \<^verbatim>\<open>setup\<close> and \<^verbatim>\<open>reasoning_trace\<close>. The other fields
  (\<^verbatim>\<open>trend_bias\<close>, \<^verbatim>\<open>structure\<close>, \<^verbatim>\<open>value\<close>, \<^verbatim>\<open>trigger\<close>, \<^verbatim>\<open>indicators\<close>,
  \<^verbatim>\<open>patterns\<close>, \<^verbatim>\<open>key_levels\<close>, \<^verbatim>\<open>raw_extraction\<close>, \<^verbatim>\<open>notes\<close>,
  \<^verbatim>\<open>tfs_used_for_confluence\<close>, \<^verbatim>\<open>user_response_text\<close>) are copied with defaults and
  enter no decision. A JSON object is an association list; an array and an object are
  truthy even when empty, the empty string is falsy.
\<close>

datatype jv = JStr string | JArr "string list"

type_synonym obj = "(string \<times> jv) list"

datatype tf_request = NoRequest | RequestList "string list" | RequestText string

record detailed =
  d_trade_setup :: "obj option"
  d_setup :: "obj option"
  d_reasoning_trace :: "string list option"

record analysis_result =
  detected_tf :: "string option"
  request_update_for_tf :: tf_request
  reasoning_trace :: "string list option"
  detailed_technical_data :: "detailed option"
  recovery_attempt :: "int option"
  analysis_timeout :: bool
  recovery_failed :: bool

record stored_analysis =
  st_detected_tf :: string
  st_request_update_for_tf :: tf_request
  st_trade_setup :: obj
  st_reasoning_trace :: "string list"


definition is_space :: "char \<Rightarrow> bool" where
  "is_space c = (c \<in> set [CHR '' '', CHR 0x09, CHR 0x0A, CHR 0x0B, CHR 0x0C, CHR 0x0D])"

definition trim :: "string \<Rightarrow> string" where
  "trim s = rev (dropWhile is_space (rev (dropWhile is_space s)))"

definition upper_char :: "char \<Rightarrow> char" where
  "upper_char c =
     (case map_of (zip ''abcdefghijklmnopqrstuvwxyz'' ''ABCDEFGHIJKLMNOPQRSTUVWXYZ'') c of
        Some C \<Rightarrow> C
      | None \<Rightarrow> c)"

definition toUpperCase :: "string \<Rightarrow> string" where
  "toUpperCase s = map upper_char s"

definition normalizeTF :: "string \<Rightarrow> string" where
  "normalizeTF tf =
     (let t = toUpperCase (trim tf)
      in if t = ''D1'' then ''1D''
         else if t = ''DAY'' then ''1D''
         else if t = ''WEEK'' then ''1W''
         else if t = ''HOUR'' then ''H1''
         else t)"

text \<open>\<^verbatim>\<open>{ ...o, key: value }\<close>: an existing key keeps its place, a new one goes last.\<close>

fun obj_set :: "string \<Rightarrow> jv \<Rightarrow> obj \<Rightarrow> obj" where
  "obj_set k v [] = [(k, v)]"
| "obj_set k v ((k', v') # rest) = (if k' = k then (k, v) # rest else (k', v') # obj_set k v rest)"

text \<open>\<^verbatim>\<open>Array.prototype.join(', ')\<close>.\<close>

fun join_comma :: "string list \<Rightarrow> string" where
  "join_comma [] = []"
| "join_comma [x] = x"
| "join_comma (x # y # ys) = x @ '', '' @ join_comma (y # ys)"

text \<open>The Thai words of the trace entry, as their UTF-8 bytes.\<close>

definition need_more_tf_text :: string where
  "need_more_tf_text = map char_of
     [224, 184, 149, 224, 185, 137, 224, 184, 173, 224, 184, 135, 224, 184, 129, 224, 184, 178,
      224, 184, 163, 224, 184, 160, 224, 184, 178, 224, 184, 158, 32, 84, 70, 32, 224, 185, 128,
      224, 184, 158, 224, 184, 180, 224, 185, 136, 224, 184, 161, 224, 185, 128, 224, 184, 149,
      224, 184, 180, 224, 184, 161 :: nat]"

text \<open>
  The object \<^verbatim>\<open>toStore\<close> as both paths build it: \<^verbatim>\<open>normalizeTF(detected_tf ||
  "Unknown_TF")\<close>, \<^verbatim>\<open>request_update_for_tf || null\<close>, \<^verbatim>\<open>detailed.trade_setup ||
  detailed.setup || {}\<close>, \<^verbatim>\<open>reasoning_trace || detailed.reasoning_trace || []\<close>.
\<close>

definition no_details :: detailed where
  "no_details = \<lparr>d_trade_setup = None, d_setup = None, d_reasoning_trace = None\<rparr>"

definition buildToStore :: "analysis_result \<Rightarrow> stored_analysis" where
  "buildToStore a =
     (let det = (case detailed_technical_data a of None \<Rightarrow> no_details | Some d \<Rightarrow> d)
      in \<lparr>st_detected_tf =
            normalizeTF (case detected_tf a of None \<Rightarrow> ''Unknown_TF''
                         | Some t \<Rightarrow> if t = [] then ''Unknown_TF'' else t),
          st_request_update_for_tf =
            (case request_update_for_tf a of
               RequestText t \<Rightarrow> if t = [] then NoRequest else RequestText t
             | r \<Rightarrow> r),
          st_trade_setup =
            (case d_trade_setup det of Some ts \<Rightarrow> ts
             | None \<Rightarrow> (case d_setup det of Some ts \<Rightarrow> ts | None \<Rightarrow> [])),
          st_reasoning_trace =
            (case reasoning_trace a of Some rt \<Rightarrow> rt
             | None \<Rightarrow> (case d_reasoning_trace det of Some rt \<Rightarrow> rt | None \<Rightarrow> []))\<rparr>)"

text \<open>
  The block of the background paths that follows: when \<^verbatim>\<open>request_update_for_tf\<close> is a
  non-empty array, \<^verbatim>\<open>trade_setup\<close> gets \<^verbatim>\<open>action: 'WAIT', confidence: 'Low'\<close> and the
  trace gets one more entry.
\<close>

definition forceWaitOnRequest :: "analysis_result \<Rightarrow> stored_analysis \<Rightarrow> stored_analysis" where
  "forceWaitOnRequest a st =
     (case request_update_for_tf a of
        RequestList (x # xs) \<Rightarrow>
          st\<lparr>st_trade_setup :=
                obj_set ''confidence'' (JStr ''Low'') (obj_set ''action'' (JStr ''WAIT'') (st_trade_setup st)),
             st_reasoning_trace :=
                st_reasoning_trace st @
                [''Decision: WAIT ('' @ need_more_tf_text @ '': '' @ join_comma (x # xs) @ '')'']\<rparr>
      | _ \<Rightarrow> st)"

subsection \<open>The analysis log and the image cache\<close>

text \<open>
  The table \<^verbatim>\<open>user_analysis_logs\<close> with primary key \<^verbatim>\<open>(user_id, tf)\<close>, in rowid
  order. A row holds either a stored analysis or, under the reserved timeframe
  \<^verbatim>\<open>_JOB\<close>, a progress marker, of which only the status text is kept here.
  \<^verbatim>\<open>saveAnalysis\<close> is the upsert: an existing row is rewritten in place.

  \<^verbatim>\<open>getAllAnalyses\<close> is \<^verbatim>\<open>SELECT * ... WHERE user_id = ?\<close> with no \<^verbatim>\<open>ORDER BY\<close>. The
  query is answered through the index of the primary key, so the rows of the user come
  in the order of \<^verbatim>\<open>tf\<close>, compared byte by byte, and not in the order of insertion.
\<close>

datatype payload = Marker string | Analysis stored_analysis

record log_row =
  lg_user :: string
  lg_tf :: string
  lg_timestamp :: int
  lg_payload :: payload

definition saveAnalysis :: "string \<Rightarrow> string \<Rightarrow> int \<Rightarrow> payload \<Rightarrow> log_row list \<Rightarrow> log_row list" where
  "saveAnalysis userId tf ts p rows =
     (let row = \<lparr>lg_user = userId, lg_tf = tf, lg_timestamp = ts, lg_payload = p\<rparr>
      in if \<exists>r\<in>set rows. lg_user r = userId \<and> lg_tf r = tf
         then map (\<lambda>r. if lg_user r = userId \<and> lg_tf r = tf then row else r) rows
         else rows @ [row])"

definition getAllAnalyses :: "string \<Rightarrow> log_row list \<Rightarrow> log_row list" where
  "getAllAnalyses userId rows = sort_key lg_tf (filter (\<lambda>r. lg_user r = userId) rows)"

text \<open>\<^verbatim>\<open>.filter(r => !String(r.tf || '').startsWith('_'))\<close>.\<close>

definition existingRows :: "string \<Rightarrow> log_row list \<Rightarrow> log_row list" where
  "existingRows userId rows = filter (\<lambda>r. take 1 (lg_tf r) \<noteq> ''_'') (getAllAnalyses userId rows)"

text \<open>
  The image cache of \<^verbatim>\<open>kv.js\<close>: key \<^verbatim>\<open>img:{userId}:{jobId}\<close>, value the base64 text
  and the content type. The reads and writes of \<^verbatim>\<open>kv.js\<close> catch every error, so an
  absent namespace behaves as an empty cache that ignores writes. A bound namespace is
  taken to keep what is written and to return it to the next read.
\<close>

record image =
  base64 :: string
  contentType :: string

type_synonym cache = "(string \<times> image) list"

definition image_key :: "string \<Rightarrow> string \<Rightarrow> string" where
  "image_key userId jobId = ''img:'' @ userId @ '':'' @ jobId"

definition saveImageToKV :: "bool \<Rightarrow> string \<Rightarrow> string \<Rightarrow> image \<Rightarrow> cache \<Rightarrow> cache" where
  "saveImageToKV configured userId jobId img c =
     (if configured
      then (image_key userId jobId,
            img\<lparr>contentType := (if contentType img = [] then ''image/jpeg'' else contentType img)\<rparr>)
           # filter (\<lambda>(k, v). k \<noteq> image_key userId jobId) c
      else c)"

definition getImageFromKV :: "bool \<Rightarrow> string \<Rightarrow> string \<Rightarrow> cache \<Rightarrow> image option" where
  "getImageFromKV configured userId jobId c =
     (if configured then map_of c (image_key userId jobId) else None)"

definition cleanupAnalysisFromKV :: "bool \<Rightarrow> string \<Rightarrow> string \<Rightarrow> cache \<Rightarrow> cache" where
  "cleanupAnalysisFromKV configured userId jobId c =
     (if configured then filter (\<lambda>(k, v). k \<noteq> image_key userId jobId) c else c)"

record store =
  jobs :: "job list"
  logs :: "log_row list"
  kv :: cache

subsection \<open>What one invocation meets\<close>

text \<open>
  The surroundings of one invocation: whether the content fetch from the messaging
  platform succeeds, how the analysis call and the recovery call end (a result, or an
  exception with its \<^verbatim>\<open>name\<close> and \<^verbatim>\<open>message\<close>; \<^verbatim>\<open>promiseWithTimeout\<close> rejects with a
  \<^verbatim>\<open>TimeoutError\<close>), and the clock readings. The configuration: \<^verbatim>\<open>INTERNAL_MAX_RETRY\<close>
  and whether the namespace \<^verbatim>\<open>ANALYSIS_KV\<close> is bound.
\<close>

datatype 'a outcome = Returns 'a | Throws string string

record world =
  line_fetch :: "image outcome"
  primary :: "analysis_result outcome"
  recovery :: "analysis_result outcome"
  at_id :: int
  at_created :: int
  at_claim :: int
  at_save :: int
  at_finish :: int
  at_marker :: int

record env =
  INTERNAL_MAX_RETRY :: "int option"
  ANALYSIS_KV :: bool

record request =
  token_ok :: bool
  body_userId :: "string option"

datatype disposition = Rejected | Idle | Accepted | Retrying | Errored | Completed

text \<open>\<^verbatim>\<open>Math.max(1, Number(env.INTERNAL_MAX_RETRY || 3))\<close>.\<close>

definition maxAttempts :: "env \<Rightarrow> int" where
  "maxAttempts e = max 1 (case INTERNAL_MAX_RETRY e of None \<Rightarrow> 3 | Some n \<Rightarrow> if n = 0 then 3 else n)"

text \<open>\<^verbatim>\<open>String(err?.message || err)\<close>; an \<^verbatim>\<open>Error\<close> with an empty message prints its name.\<close>

definition error_text :: "string \<Rightarrow> string \<Rightarrow> string" where
  "error_text name message = (if message = [] then name else message)"

definition is_timeout :: "string \<Rightarrow> bool" where
  "is_timeout name = (name = ''TimeoutError'' \<or> name = ''AbortError'')"

text \<open>\<^verbatim>\<open>String.prototype.includes\<close>.\<close>

fun str_includes :: "string \<Rightarrow> string \<Rightarrow> bool" where
  "str_includes [] sub = (sub = [])"
| "str_includes (c # cs) sub = (take (length sub) (c # cs) = sub \<or> str_includes cs sub)"

definition retryable_message :: "string \<Rightarrow> bool" where
  "retryable_message msg = (str_includes msg ''429'' \<or> str_includes msg ''503'' \<or> str_includes msg ''500'')"

subsection \<open>The three ways a claimed job leaves the processor\<close>

text \<open>
  The blocks that \<^verbatim>\<open>handleInternalAnalyze\<close> of \<^verbatim>\<open>worker.js\<close> and
  \<^verbatim>\<open>performAnalysisInBackground\<close> of \<^verbatim>\<open>handlers.js\<close> share word for word. Each returns
  the new state, what became of the job, and whether the trigger for the next invocation
  was fired.

  Retry: \<^verbatim>\<open>requeueJob\<close>, the marker \<^verbatim>\<open>retrying\<close>, the trigger.
\<close>

definition retry_job ::
  "string \<Rightarrow> claimed_job \<Rightarrow> int \<Rightarrow> string \<Rightarrow> world \<Rightarrow> store \<Rightarrow> store \<times> disposition \<times> bool" where
  "retry_job userId job nextAttempt msg w s =
     (s\<lparr>jobs := requeueJob (cj_job_id job) nextAttempt msg (jobs s),
        logs := saveAnalysis userId ''_JOB'' (at_marker w) (Marker ''retrying'') (logs s)\<rparr>,
      Retrying, True)"

text \<open>
  Terminal failure: \<^verbatim>\<open>markJobError\<close>, the marker \<^verbatim>\<open>error\<close>, and the trigger when
  \<^verbatim>\<open>hasQueuedJobs\<close>.
\<close>

definition fail_job ::
  "string \<Rightarrow> claimed_job \<Rightarrow> string \<Rightarrow> world \<Rightarrow> store \<Rightarrow> store \<times> disposition \<times> bool" where
  "fail_job userId job msg w s =
     (let db = markJobError (cj_job_id job) (at_finish w) msg (jobs s)
      in (s\<lparr>jobs := db,
            logs := saveAnalysis userId ''_JOB'' (at_marker w) (Marker ''error'') (logs s)\<rparr>,
          Errored, hasQueuedJobs userId db))"

text \<open>
  Persist and complete: the stored object, \<^verbatim>\<open>saveAnalysis\<close> under the detected
  timeframe, \<^verbatim>\<open>markJobDone\<close>, the marker \<^verbatim>\<open>done\<close>, in \<^verbatim>\<open>handlers.js\<close> the cleanup
  of the image cache, and the trigger when \<^verbatim>\<open>queued_count > 0\<close>.
\<close>

definition persist_and_complete ::
  "bool \<Rightarrow> env \<Rightarrow> string \<Rightarrow> claimed_job \<Rightarrow> analysis_result \<Rightarrow> world \<Rightarrow> store
     \<Rightarrow> store \<times> disposition \<times> bool" where
  "persist_and_complete cleanup e userId job a w s =
     (let toStore = forceWaitOnRequest a (buildToStore a);
          detectedTF = st_detected_tf toStore;
          logs1 = saveAnalysis userId detectedTF (at_save w) (Analysis toStore) (logs s);
          db = markJobDone (cj_job_id job) (at_finish w) detectedTF (jobs s);
          queued_count = fst (getUserQueueStats userId db)
      in (s\<lparr>jobs := db,
            logs := saveAnalysis userId ''_JOB'' (at_marker w) (Marker ''done'') logs1,
            kv := (if cleanup then cleanupAnalysisFromKV (ANALYSIS_KV e) userId (cj_job_id job) (kv s)
                   else kv s)\<rparr>,
          Completed, queued_count > 0))"

subsection \<open>\<^verbatim>\<open>handleInternalAnalyze\<close> of \<^verbatim>\<open>worker.js\<close>\<close>

text \<open>
  The closure handed to \<^verbatim>\<open>ctx.waitUntil\<close>: the content fetch (a failure goes to the
  outer \<^verbatim>\<open>catch\<close>), the analysis call, and in its \<^verbatim>\<open>catch\<close> the test
  \<^verbatim>\<open>retryable\<close>, which here counts a timeout as retryable.
\<close>

definition internalAnalyzeTask ::
  "env \<Rightarrow> string \<Rightarrow> claimed_job \<Rightarrow> world \<Rightarrow> store \<Rightarrow> store \<times> disposition \<times> bool" where
  "internalAnalyzeTask e userId job w s =
     (case line_fetch w of
        Throws n m \<Rightarrow> fail_job userId job (error_text n m) w s
      | Returns img \<Rightarrow>
          (case primary w of
             Throws n m \<Rightarrow>
               (let msg = error_text n m;
                    retryable = (is_timeout n \<or> retryable_message msg);
                    nextAttempt = cj_attempt job + 1
                in if retryable \<and> nextAttempt \<le> maxAttempts e
                   then retry_job userId job nextAttempt msg w s
                   else fail_job userId job msg w s)
           | Returns a \<Rightarrow> persist_and_complete False e userId job a w s))"

text \<open>
  The handler: the token check, the body, the claim of one job; without a job the marker
  \<^verbatim>\<open>idle\<close> or \<^verbatim>\<open>busy\<close> and status 200, with a job the marker \<^verbatim>\<open>processing\<close>, the
  task, and status 202.
\<close>

definition handleInternalAnalyze ::
  "env \<Rightarrow> request \<Rightarrow> world \<Rightarrow> store \<Rightarrow> store \<times> nat \<times> disposition \<times> bool" where
  "handleInternalAnalyze e req w s =
     (if \<not> token_ok req then (s, 401, Rejected, False)
      else case body_userId req of
        None \<Rightarrow> (s, 400, Rejected, False)
      | Some userId \<Rightarrow>
          if userId = [] then (s, 400, Rejected, False)
          else
            (case claimNextQueuedJob (at_claim w) userId (jobs s) of
               (db, None) \<Rightarrow>
                 (s\<lparr>jobs := db,
                    logs := saveAnalysis userId ''_JOB'' (at_marker w)
                              (Marker (if snd (getUserQueueStats userId db) > 0 then ''busy'' else ''idle''))
                              (logs s)\<rparr>,
                  200, Idle, False)
             | (db, Some job) \<Rightarrow>
                 (case internalAnalyzeTask e userId job w
                         (s\<lparr>jobs := db,
                            logs := saveAnalysis userId ''_JOB'' (cj_started_at job)
                                      (Marker ''processing'') (logs s)\<rparr>) of
                    (s', d, fired) \<Rightarrow> (s', 202, d, fired))))"

text \<open>
  The chain of invocations the trigger produces, one per element of the list, each
  meeting its own surroundings.
\<close>

fun analyze_chain :: "env \<Rightarrow> request \<Rightarrow> world list \<Rightarrow> store \<Rightarrow> disposition list \<times> store" where
  "analyze_chain e req [] s = ([], s)"
| "analyze_chain e req (w # ws) s =
     (case handleInternalAnalyze e req w s of
        (s1, code, d, fired) \<Rightarrow>
          (case analyze_chain e req ws s1 of (ds, s2) \<Rightarrow> (d # ds, s2)))"

subsection \<open>\<^verbatim>\<open>performAnalysisInBackground\<close> of \<^verbatim>\<open>handlers.js\<close>\<close>

text \<open>
  \<^verbatim>\<open>createFallbackAnalysis\<close> of \<^verbatim>\<open>ai.js\<close>. Its context is the parsed
  \<^verbatim>\<open>analysis_json\<close> of a log row, of which it reads \<^verbatim>\<open>detected_tf\<close>,
  \<^verbatim>\<open>request_update_for_tf\<close> and \<^verbatim>\<open>trade_setup\<close> (a stored object has no
  \<^verbatim>\<open>detailed_technical_data\<close>, so \<^verbatim>\<open>existingData\<close> is the context itself).
\<close>

record fallback_context =
  ctx_detected_tf :: "string option"
  ctx_request :: tf_request
  ctx_trade_setup :: "obj option"

fun as_context :: "payload \<Rightarrow> fallback_context" where
  "as_context (Analysis st) =
     \<lparr>ctx_detected_tf = Some (st_detected_tf st), ctx_request = st_request_update_for_tf st,
      ctx_trade_setup = Some (st_trade_setup st)\<rparr>"
| "as_context (Marker m) = \<lparr>ctx_detected_tf = None, ctx_request = NoRequest, ctx_trade_setup = None\<rparr>"

definition createFallbackAnalysis :: "string \<Rightarrow> fallback_context option \<Rightarrow> analysis_result" where
  "createFallbackAnalysis detectedTf existingContext =
     (case existingContext of
        Some c \<Rightarrow>
          \<lparr>detected_tf =
             Some (if detectedTf \<noteq> [] then detectedTf
                   else case ctx_detected_tf c of
                          Some t \<Rightarrow> if t = [] then ''Unknown'' else t
                        | None \<Rightarrow> ''Unknown''),
           request_update_for_tf =
             (case ctx_request c of
                RequestText t \<Rightarrow> if t = [] then NoRequest else RequestText t
              | r \<Rightarrow> r),
           reasoning_trace =
             Some [''Timeout: Using cached analysis from previous successful analysis.''],
           detailed_technical_data =
             Some \<lparr>d_trade_setup =
                     Some (case ctx_trade_setup c of
                             Some ts \<Rightarrow> ts
                           | None \<Rightarrow> [(''action'', JStr ''WAIT''), (''confidence'', JStr ''Low''),
                                      (''risk_flags'', JArr [])]),
                   d_setup = None, d_reasoning_trace = None\<rparr>,
           recovery_attempt = None, analysis_timeout = False, recovery_failed = False\<rparr>
      | None \<Rightarrow>
          \<lparr>detected_tf = Some (if detectedTf \<noteq> [] then detectedTf else ''Unknown''),
           request_update_for_tf = NoRequest,
           reasoning_trace =
             Some [''Timeout: Using cached/fallback analysis. Please re-upload for full analysis.''],
           detailed_technical_data =
             Some \<lparr>d_trade_setup =
                     Some [(''action'', JStr ''WAIT''), (''confidence'', JStr ''Low''),
                           (''risk_flags'', JArr [''Timeout - Incomplete Analysis''])],
                   d_setup = None, d_reasoning_trace = None\<rparr>,
           recovery_attempt = None, analysis_timeout = False, recovery_failed = False\<rparr>)"

text \<open>\<^verbatim>\<open>existingRows?.[0]\<close> and its parsed \<^verbatim>\<open>analysis_json\<close>.\<close>

definition recentContext :: "log_row list \<Rightarrow> fallback_context option" where
  "recentContext rows = (case rows of [] \<Rightarrow> None | r # _ \<Rightarrow> Some (as_context (lg_payload r)))"

text \<open>
  The image: the content fetch, on its failure the cached image (\<^verbatim>\<open>cachedImg &&
  cachedImg.base64\<close>), else the exception that the outer \<^verbatim>\<open>catch\<close> turns into
  \<^verbatim>\<open>markJobError\<close>.
\<close>

definition acquire_image :: "env \<Rightarrow> string \<Rightarrow> claimed_job \<Rightarrow> world \<Rightarrow> store \<Rightarrow> string + image" where
  "acquire_image e userId job w s =
     (case line_fetch w of
        Returns img \<Rightarrow> Inr img
      | Throws n m \<Rightarrow>
          (case getImageFromKV (ANALYSIS_KV e) userId (cj_job_id job) (kv s) of
             Some c \<Rightarrow>
               if base64 c \<noteq> []
               then Inr (c\<lparr>contentType := (if contentType c = [] then ''image/jpeg'' else contentType c)\<rparr>)
               else Inl (''Cannot fetch image from LINE and no cached version available: '' @ m)
           | None \<Rightarrow> Inl (''Cannot fetch image from LINE and no cached version available: '' @ m)))"

text \<open>
  The \<^verbatim>\<open>catch\<close> of the analysis call for a timeout: with \<^verbatim>\<open>attempt + 1 <= 2\<close> and a
  cached image one recovery call; whatever it throws, and every other branch, ends in the
  fallback result. The value is the result that goes on to storage, together with the
  number of calls of \<^verbatim>\<open>analyzeChartStructured\<close> made on the way.
\<close>

definition timeout_recovery ::
  "env \<Rightarrow> string \<Rightarrow> claimed_job \<Rightarrow> world \<Rightarrow> store \<Rightarrow> analysis_result \<times> nat" where
  "timeout_recovery e userId job w s =
     (let attempt_recovery = cj_attempt job + 1;
          maxRecoveryAttempts = 2;
          fallback = createFallbackAnalysis ''Unknown'' (recentContext (existingRows userId (logs s)))
      in if attempt_recovery \<le> maxRecoveryAttempts
         then (case getImageFromKV (ANALYSIS_KV e) userId (cj_job_id job) (kv s) of
                 Some c \<Rightarrow>
                   if base64 c \<noteq> []
                   then (case recovery w of
                           Returns a \<Rightarrow> (a\<lparr>recovery_attempt := Some attempt_recovery\<rparr>, 1)
                         | Throws n m \<Rightarrow>
                             (fallback\<lparr>analysis_timeout := True, recovery_failed := True\<rparr>, 1))
                   else (fallback\<lparr>analysis_timeout := True\<rparr>, 0)
               | None \<Rightarrow> (fallback\<lparr>analysis_timeout := True\<rparr>, 0))
         else (fallback\<lparr>analysis_timeout := True\<rparr>, 0))"

text \<open>
  The function, with the number of calls of \<^verbatim>\<open>analyzeChartStructured\<close> it made beside
  its result: none when there is no image, one for the analysis call, and the recovery
  call if there was one.
\<close>

definition performAnalysisInBackground_calls ::
  "env \<Rightarrow> string \<Rightarrow> claimed_job \<Rightarrow> world \<Rightarrow> store \<Rightarrow> (store \<times> disposition \<times> bool) \<times> nat" where
  "performAnalysisInBackground_calls e userId job w s =
     (case acquire_image e userId job w s of
        Inl msg \<Rightarrow> (fail_job userId job msg w s, 0)
      | Inr img \<Rightarrow>
          (let s1 = s\<lparr>kv := saveImageToKV (ANALYSIS_KV e) userId (cj_job_id job) img (kv s)\<rparr>
           in case primary w of
                Returns a \<Rightarrow> (persist_and_complete True e userId job a w s1, 1)
              | Throws n m \<Rightarrow>
                  if is_timeout n
                  then (case timeout_recovery e userId job w s1 of
                          (a, k) \<Rightarrow> (persist_and_complete True e userId job a w s1, 1 + k))
                  else
                    (let msg = error_text n m;
                         retryable = retryable_message msg;
                         nextAttempt = cj_attempt job + 1
                     in (if retryable \<and> nextAttempt \<le> maxAttempts e
                         then retry_job userId job nextAttempt msg w s1
                         else fail_job userId job msg w s1, 1))))"

definition performAnalysisInBackground ::
  "env \<Rightarrow> string \<Rightarrow> claimed_job \<Rightarrow> world \<Rightarrow> store \<Rightarrow> store \<times> disposition \<times> bool" where
  "performAnalysisInBackground e userId job w s = fst (performAnalysisInBackground_calls e userId job w s)"

text \<open>
  \<^verbatim>\<open>handleInternalAnalyze\<close> of \<^verbatim>\<open>handlers.js\<close>: after the claim and the marker it fires
  the trigger and answers 202; it does not call \<^verbatim>\<open>performAnalysisInBackground\<close>.
\<close>

definition handleInternalAnalyze_handlers ::
  "env \<Rightarrow> request \<Rightarrow> world \<Rightarrow> store \<Rightarrow> store \<times> nat \<times> disposition \<times> bool" where
  "handleInternalAnalyze_handlers e req w s =
     (if \<not> token_ok req then (s, 401, Rejected, False)
      else case body_userId req of
        None \<Rightarrow> (s, 400, Rejected, False)
      | Some userId \<Rightarrow>
          if userId = [] then (s, 400, Rejected, False)
          else
            (case claimNextQueuedJob (at_claim w) userId (jobs s) of
               (db, None) \<Rightarrow>
                 (s\<lparr>jobs := db,
                    logs := saveAnalysis userId ''_JOB'' (at_marker w)
                              (Marker (if snd (getUserQueueStats userId db) > 0 then ''busy'' else ''idle''))
                              (logs s)\<rparr>,
                  200, Idle, False)
             | (db, Some job) \<Rightarrow>
                 (s\<lparr>jobs := db,
                    logs := saveAnalysis userId ''_JOB'' (cj_started_at job)
                              (Marker ''processing'') (logs s)\<rparr>,
                  202, Accepted, True)))"

text \<open>
  An invocation whose content fetch succeeds and whose analysis call throws an error that
  \<^verbatim>\<open>handleInternalAnalyze\<close> of \<^verbatim>\<open>worker.js\<close> counts as retryable.
\<close>

definition fails_retryably :: "world \<Rightarrow> bool" where
  "fails_retryably w =
     (case line_fetch w of
        Throws n m \<Rightarrow> False
      | Returns img \<Rightarrow>
          (case primary w of
             Returns a \<Rightarrow> False
           | Throws n m \<Rightarrow> is_timeout n \<or> retryable_message (error_text n m)))"

text \<open>The same with an error that is a rate limit or a server error, and with a timeout.\<close>

definition fails_with_server_error :: "world \<Rightarrow> bool" where
  "fails_with_server_error w =
     (case line_fetch w of
        Throws n m \<Rightarrow> False
      | Returns img \<Rightarrow>
          (case primary w of
             Returns a \<Rightarrow> False
           | Throws n m \<Rightarrow> \<not> is_timeout n \<and> retryable_message (error_text n m)))"





text \<open>The row of a job id, if the table has one.\<close>

definition job_row :: "string \<Rightarrow> job list \<Rightarrow> job option" where
  "job_row i db = find (\<lambda>r. job_id r = i) db"

subsection \<open>Example surroundings\<close>

text \<open>
  A configuration with two retries, a request for user \<open>U1\<close>, a queue holding one fresh
  job, and invocations whose analysis call is rate limited, times out, or asks for a
  fresher chart.
\<close>

definition example_env :: env where
  "example_env = \<lparr>INTERNAL_MAX_RETRY = Some 2, ANALYSIS_KV = True\<rparr>"

definition example_request :: request where
  "example_request = \<lparr>token_ok = True, body_userId = Some ''U1''\<rparr>"

definition example_queue :: store where
  "example_queue = \<lparr>jobs = [new_row ''j1'' ''U1'' ''m1'' 1], logs = [], kv = []\<rparr>"


definition rate_limited :: world where
  "rate_limited =
     \<lparr>line_fetch = Returns \<lparr>base64 = ''aGk='', contentType = ''image/png''\<rparr>,
      primary = Throws ''Error'' ''AI API Error: 429 '',
      recovery = Throws ''Error'' ''AI API Error: 429 '',
      at_id = 10, at_created = 10, at_claim = 11, at_save = 12, at_finish = 13, at_marker = 14\<rparr>"





text \<open>
  A log in which user \<open>U1\<close> stored an analysis of M15 first and one of H4 later, with a
  marker and a row of another user between them.
\<close>

definition stored_example :: "string \<Rightarrow> string \<Rightarrow> stored_analysis" where
  "stored_example tf action =
     \<lparr>st_detected_tf = tf, st_request_update_for_tf = NoRequest,
      st_trade_setup = [(''action'', JStr action)], st_reasoning_trace = []\<rparr>"

definition example_logs :: "log_row list" where
  "example_logs =
     [\<lparr>lg_user = ''U1'', lg_tf = ''M15'', lg_timestamp = 5,
        lg_payload = Analysis (stored_example ''M15'' ''SELL'')\<rparr>,
      \<lparr>lg_user = ''U1'', lg_tf = ''_JOB'', lg_timestamp = 6, lg_payload = Marker ''done''\<rparr>,
      \<lparr>lg_user = ''U2'', lg_tf = ''D1'', lg_timestamp = 6,
        lg_payload = Analysis (stored_example ''D1'' ''WAIT'')\<rparr>,
      \<lparr>lg_user = ''U1'', lg_tf = ''H4'', lg_timestamp = 7,
        lg_payload = Analysis (stored_example ''H4'' ''BUY'')\<rparr>]"



subsection \<open>Terminal states\<close>




subsection \<open>The image branch of \<^verbatim>\<open>handleEvent\<close> in \<^verbatim>\<open>worker.js\<close>\<close>

text \<open>
  The branch \<^verbatim>\<open>messageType === 'image'\<close>: the enqueue, the statistics, and either the
  acknowledgment with the trigger, or the fast path. The fast path sets the job to
  processing by its own conditional update, fetches the image and calls the analysis.
  A failed fetch goes to the outer \<^verbatim>\<open>catch\<close> (a reply, nothing else); a failed
  analysis requeues the job with attempt 1; a result that asks for a fresher chart gets
  the warning reply and a \<^verbatim>\<open>return\<close>, after which the source still has the statement that
  would close the job; any other result is saved and answered.
\<close>

datatype reply = AckReply | WarningReply string | ResultReply | SystemErrorReply string

definition fast_path_update :: "int \<Rightarrow> string \<Rightarrow> job \<Rightarrow> job" where
  "fast_path_update startedAt jobId j =
     (if job_id j = jobId \<and> status j = Queued
      then j\<lparr>status := Processing, started_at := Some startedAt\<rparr>
      else j)"

text \<open>\<^verbatim>\<open>request_update_for_tf && request_update_for_tf.length > 0\<close>.\<close>

fun requests_update :: "tf_request \<Rightarrow> bool" where
  "requests_update NoRequest = False"
| "requests_update (RequestList l) = (l \<noteq> [])"
| "requests_update (RequestText t) = (t \<noteq> [])"

fun tf_list_text :: "tf_request \<Rightarrow> string" where
  "tf_list_text NoRequest = []"
| "tf_list_text (RequestList l) = join_comma l"
| "tf_list_text (RequestText t) = t"

definition handleEvent_image ::
  "env \<Rightarrow> string \<Rightarrow> string \<Rightarrow> world \<Rightarrow> store \<Rightarrow> store \<times> reply \<times> bool" where
  "handleEvent_image e userId messageId w s =
     (case enqueueAnalysisJob (at_id w) (at_created w) userId messageId (jobs s) of
        (db1, (jobId, createdAt)) \<Rightarrow>
          (let qStats = getUserQueueStats userId db1;
               canFastPath = (snd qStats = 0 \<and> fst qStats = 1)
           in if \<not> canFastPath then (s\<lparr>jobs := db1\<rparr>, AckReply, True)
              else
                (let db2 = map (fast_path_update (at_claim w) jobId) db1
                 in case line_fetch w of
                      Throws n m \<Rightarrow> (s\<lparr>jobs := db2\<rparr>, SystemErrorReply m, False)
                    | Returns img \<Rightarrow>
                        (case primary w of
                           Throws n m \<Rightarrow>
                             (s\<lparr>jobs := requeueJob jobId 1 ''Foreground timeout -> background'' db2\<rparr>,
                              AckReply, True)
                         | Returns a \<Rightarrow>
                             if requests_update (request_update_for_tf a)
                             then (s\<lparr>jobs := db2\<rparr>,
                                   WarningReply (tf_list_text (request_update_for_tf a)), False)
                             else
                               (let toStore = buildToStore a
                                in (s\<lparr>jobs := db2,
                                      logs := saveAnalysis userId (st_detected_tf toStore) (at_save w)
                                                (Analysis toStore) (logs s)\<rparr>,
                                    ResultReply, fst (getUserQueueStats userId db2) > 0))))))"

text \<open>An analysis that asks for a fresh H4 chart, and the surroundings that deliver it.\<close>

definition asks_for_h4 :: analysis_result where
  "asks_for_h4 =
     \<lparr>detected_tf = Some ''M15'', request_update_for_tf = RequestList [''H4''],
      reasoning_trace = Some [''P1: parent trend unknown''],
      detailed_technical_data =
        Some \<lparr>d_trade_setup = Some [(''action'', JStr ''BUY''), (''confidence'', JStr ''High'')],
              d_setup = None, d_reasoning_trace = None\<rparr>,
      recovery_attempt = None, analysis_timeout = False, recovery_failed = False\<rparr>"

definition wants_fresh_chart :: world where
  "wants_fresh_chart =
     \<lparr>line_fetch = Returns \<lparr>base64 = ''aGk='', contentType = ''image/png''\<rparr>,
      primary = Returns asks_for_h4, recovery = Returns asks_for_h4,
      at_id = 10, at_created = 10, at_claim = 11, at_save = 12, at_finish = 13, at_marker = 14\<rparr>"

definition empty_store :: store where
  "empty_store = \<lparr>jobs = [], logs = [], kv = []\<rparr>"

section \<open>The estimate for the acknowledgment\<close>

text \<open>
  \<^verbatim>\<open>estimateSecondsPerImage\<close>. The setting \<^verbatim>\<open>EST_SECONDS_PER_IMAGE\<close> is a number or
  unset; the store is absent (\<^verbatim>\<open>!env.DB\<close>), fails the query (the \<^verbatim>\<open>catch\<close>), or
  answers it. The query takes the user's done rows with both timestamps and
  \<^verbatim>\<open>finished_at >= started_at\<close>, the five latest by \<^verbatim>\<open>finished_at\<close>; of their
  durations the positive ones are averaged, in seconds, and clamped to 15..180. The
  function only reads, so the model returns the estimate alone. Arithmetic is exact here
  where the source computes in floating point. The setting is taken as a number, as
  \<^verbatim>\<open>Number(...)\<close> delivers it; a setting that is text is not covered.
\<close>

datatype db_read = NoDB | QueryFails | Rows "job list"

definition has_duration :: "string \<Rightarrow> job \<Rightarrow> bool" where
  "has_duration userId j =
     (user_id j = userId \<and> status j = Done \<and> started_at j \<noteq> None \<and> finished_at j \<noteq> None
      \<and> the (started_at j) \<le> the (finished_at j))"

definition dur_ms :: "job \<Rightarrow> int" where
  "dur_ms j = the (finished_at j) - the (started_at j)"

definition est_fallback :: "real option \<Rightarrow> real" where
  "est_fallback setting = max 10 (case setting of None \<Rightarrow> 45 | Some x \<Rightarrow> if x = 0 then 45 else x)"

text \<open>The rows the query delivers, and \<^verbatim>\<open>durations\<close>.\<close>

definition recent_rows :: "string \<Rightarrow> job list \<Rightarrow> job list" where
  "recent_rows userId db = take 5 (order_by_finished_desc (filter (has_duration userId) db))"

definition recent_durations :: "string \<Rightarrow> job list \<Rightarrow> int list" where
  "recent_durations userId db = filter (\<lambda>n. 0 < n) (map dur_ms (recent_rows userId db))"

definition estimateSecondsPerImage :: "real option \<Rightarrow> string \<Rightarrow> db_read \<Rightarrow> real" where
  "estimateSecondsPerImage setting userId dbr =
     (let fallback = est_fallback setting
      in case dbr of
           NoDB \<Rightarrow> fallback
         | QueryFails \<Rightarrow> fallback
         | Rows db \<Rightarrow>
             (let durations = recent_durations userId db
              in if length durations = 0 then fallback
                 else
                   (let avgMs = real_of_int (sum_list durations) / real (length durations);
                        avgSec = avgMs / 1000
                    in min 180 (max 15 avgSec))))"

text \<open>
  A table with six completed jobs of user \<open>U1\<close>, of which the one that finished first took
  100 seconds and the others 20 seconds each, and a completed job of user \<open>U2\<close> that took
  no time.
\<close>

definition example_timed :: "job list" where
  "example_timed =
     [finished_row ''b'' ''U1'' 2 100000 120000, finished_row ''a'' ''U1'' 1 0 100000,
      finished_row ''c'' ''U1'' 3 120000 140000, finished_row ''z'' ''U2'' 4 5000 5000,
      finished_row ''d'' ''U1'' 5 140000 160000, finished_row ''e'' ''U1'' 6 160000 180000,
      finished_row ''f'' ''U1'' 7 180000 200000]"

section \<open>Properties of the job store\<close>

subsection \<open>Job ids stay unique\<close>

lemma job_id_claim_update [simp]: "job_id (claim_update t i j) = job_id j"
  by (simp add: claim_update_def)

lemma job_id_requeue_update [simp]: "job_id (requeue_update i a e j) = job_id j"
  by (simp add: requeue_update_def)

lemma job_id_done_update [simp]: "job_id (done_update i t tf j) = job_id j"
  by (simp add: done_update_def)

lemma job_id_error_update [simp]: "job_id (error_update i t e j) = job_id j"
  by (simp add: error_update_def)

lemma user_id_claim_update [simp]: "user_id (claim_update t i j) = user_id j"
  by (simp add: claim_update_def)

lemma user_id_requeue_update [simp]: "user_id (requeue_update i a e j) = user_id j"
  by (simp add: requeue_update_def)

lemma user_id_done_update [simp]: "user_id (done_update i t tf j) = user_id j"
  by (simp add: done_update_def)

lemma user_id_error_update [simp]: "user_id (error_update i t e j) = user_id j"
  by (simp add: error_update_def)

lemma job_ids_enqueue:
  "distinct (map job_id db) \<Longrightarrow> distinct (map job_id (fst (enqueueAnalysisJob a b u m db)))"
  by (auto simp: enqueueAnalysisJob_def Let_def new_row_def)

lemma job_ids_claim:
  "map job_id (fst (claimNextQueuedJob t u db)) = map job_id db"
  by (simp add: claimNextQueuedJob_def Let_def comp_def split: list.splits)

lemma job_ids_requeue [simp]: "map job_id (requeueJob i a e db) = map job_id db"
  by (simp add: requeueJob_def comp_def)

lemma job_ids_markError [simp]: "map job_id (markJobError i t e db) = map job_id db"
  by (simp add: markJobError_def comp_def)

lemma distinct_prune:
  "distinct (map job_id db) \<Longrightarrow> distinct (map job_id (pruneDoneJobHistory u k db))"
  by (simp add: pruneDoneJobHistory_def Let_def distinct_map_filter)

lemma distinct_markDone:
  "distinct (map job_id db) \<Longrightarrow> distinct (map job_id (markJobDone i t tf db))"
  by (simp add: markJobDone_def Let_def distinct_prune comp_def split: option.splits)

lemma distinct_apply_op:
  "distinct (map job_id db) \<Longrightarrow> distinct (map job_id (apply_op operation db))"
  by (cases operation) (simp_all add: job_ids_enqueue job_ids_claim distinct_markDone)

lemma run_ops_snoc: "run_ops (ops @ [operation]) db = apply_op operation (run_ops ops db)"
  by (simp add: run_ops_def)

lemma distinct_run_ops: "distinct (map job_id (run_ops ops []))"
proof (induction ops rule: rev_induct)
  case Nil
  show ?case by (simp add: run_ops_def)
next
  case (snoc operation ops)
  then show ?case by (simp add: run_ops_snoc distinct_apply_op)
qed

subsection \<open>The processing slot\<close>

lemma claim_update_absent:
  "i \<notin> job_id ` set db \<Longrightarrow> map (claim_update t i) db = db"
  by (induction db) (auto simp: claim_update_def)

lemma count_claim_update:
  "distinct (map job_id db) \<Longrightarrow>
   count_status v s (map (claim_update t i) db) \<le> Suc (count_status v s db)"
proof (induction db)
  case Nil
  show ?case by (simp add: count_status_def)
next
  case (Cons j db)
  show ?case
  proof (cases "job_id j = i")
    case True
    with Cons.prems have "i \<notin> job_id ` set db" by auto
    then have "map (claim_update t i) db = db" by (rule claim_update_absent)
    then show ?thesis by (simp add: count_status_def)
  next
    case False
    then have "claim_update t i j = j" by (simp add: claim_update_def)
    with Cons show ?thesis by (simp add: count_status_def)
  qed
qed

lemma count_claim_update_other:
  "\<forall>j\<in>set db. job_id j = i \<longrightarrow> user_id j \<noteq> v \<Longrightarrow>
   count_status v s (map (claim_update t i) db) = count_status v s db"
  by (induction db) (auto simp: count_status_def claim_update_def)

lemma same_id_same_row:
  "distinct (map job_id db) \<Longrightarrow> j \<in> set db \<Longrightarrow> k \<in> set db \<Longrightarrow> job_id j = job_id k \<Longrightarrow> j = k"
  by (meson distinct_map inj_onD)

lemma head_of_sorted_queue:
  "sort_key created_at (filter (\<lambda>j. user_id j = u \<and> status j = Queued) db) = nxt # rest \<Longrightarrow>
   nxt \<in> set db \<and> user_id nxt = u \<and> status nxt = Queued"
proof -
  assume h: "sort_key created_at (filter (\<lambda>j. user_id j = u \<and> status j = Queued) db) = nxt # rest"
  have "nxt \<in> set (sort_key created_at (filter (\<lambda>j. user_id j = u \<and> status j = Queued) db))"
    by (simp add: h)
  then show ?thesis by simp
qed

lemma processing_after_claim:
  assumes d: "distinct (map job_id db)"
    and inv: "\<forall>v. count_status v Processing db \<le> 1"
  shows "count_status v Processing (fst (claimNextQueuedJob t u db)) \<le> 1"
proof (cases "count_status u Processing db > 0")
  case True
  then show ?thesis using inv by (simp add: claimNextQueuedJob_def)
next
  case idle: False
  show ?thesis
  proof (cases "sort_key created_at (filter (\<lambda>j. user_id j = u \<and> status j = Queued) db)")
    case Nil
    then show ?thesis using inv idle by (simp add: claimNextQueuedJob_def)
  next
    case (Cons nxt rest)
    then have nx: "nxt \<in> set db" "user_id nxt = u" "status nxt = Queued"
      using head_of_sorted_queue by blast+
    have upd: "count_status v Processing (map (claim_update t (job_id nxt)) db) \<le> 1"
    proof (cases "v = u")
      case True
      have "count_status v Processing (map (claim_update t (job_id nxt)) db)
              \<le> Suc (count_status v Processing db)"
        using d by (rule count_claim_update)
      with True idle show ?thesis by simp
    next
      case False
      have "\<forall>j\<in>set db. job_id j = job_id nxt \<longrightarrow> user_id j \<noteq> v"
        using same_id_same_row [OF d _ nx(1)] nx(2) False by blast
      then have "count_status v Processing (map (claim_update t (job_id nxt)) db)
                   = count_status v Processing db"
        by (rule count_claim_update_other)
      with inv show ?thesis by simp
    qed
    show ?thesis
      using Cons idle inv upd by (simp add: claimNextQueuedJob_def Let_def)
  qed
qed

lemma count_map_le:
  "(\<And>j. P (f j) \<Longrightarrow> P j) \<Longrightarrow> length (filter P (map f db)) \<le> length (filter P db)"
  by (induction db) (auto simp: le_SucI)

lemma count_filter_le: "length (filter P (filter Q db)) \<le> length (filter P db)"
  by (induction db) (auto simp: le_SucI)

lemma processing_after_requeue:
  "count_status v Processing (requeueJob i a e db) \<le> count_status v Processing db"
  unfolding count_status_def requeueJob_def
  by (rule count_map_le) (auto simp: requeue_update_def split: if_splits)

lemma processing_after_markError:
  "count_status v Processing (markJobError i t e db) \<le> count_status v Processing db"
  unfolding count_status_def markJobError_def
  by (rule count_map_le) (auto simp: error_update_def split: if_splits)

lemma processing_after_done_update:
  "count_status v Processing (map (done_update i t tf) db) \<le> count_status v Processing db"
  unfolding count_status_def
  by (rule count_map_le) (auto simp: done_update_def split: if_splits)

lemma processing_after_prune:
  "count_status v Processing (pruneDoneJobHistory u k db) \<le> count_status v Processing db"
  unfolding count_status_def pruneDoneJobHistory_def Let_def
  by (rule count_filter_le)

lemma processing_after_markDone:
  "count_status v Processing (markJobDone i t tf db) \<le> count_status v Processing db"
proof -
  note a = processing_after_done_update [of v i t tf db]
  note b = processing_after_prune [of v _ 5 "map (done_update i t tf) db"]
  show ?thesis
    using a le_trans [OF b a]
    by (simp add: markJobDone_def Let_def split: option.splits)
qed

lemma processing_after_enqueue:
  "count_status v Processing (fst (enqueueAnalysisJob a b u m db)) = count_status v Processing db"
  by (simp add: enqueueAnalysisJob_def Let_def count_status_def new_row_def)

lemma processing_after_op:
  assumes "distinct (map job_id db)" and "\<forall>v. count_status v Processing db \<le> 1"
  shows "count_status v Processing (apply_op operation db) \<le> 1"
proof (cases operation)
  case (Enqueue a b u m)
  then show ?thesis using assms(2) by (simp add: processing_after_enqueue)
next
  case (ClaimNext t u)
  then show ?thesis using processing_after_claim [OF assms] by simp
next
  case (Requeue i a e)
  then show ?thesis
    using assms(2) le_trans [OF processing_after_requeue [of v i a e db]] by simp
next
  case (MarkDone i t tf)
  then show ?thesis
    using assms(2) le_trans [OF processing_after_markDone [of v i t tf db]] by simp
next
  case (MarkError i t e)
  then show ?thesis
    using assms(2) le_trans [OF processing_after_markError [of v i t e db]] by simp
qed

lemma processing_run_ops: "count_status v Processing (run_ops ops []) \<le> 1"
proof (induction ops arbitrary: v rule: rev_induct)
  case Nil
  show ?case by (simp add: run_ops_def count_status_def)
next
  case (snoc operation ops)
  show ?case
    unfolding run_ops_snoc
    by (rule processing_after_op [OF distinct_run_ops]) (rule allI, rule snoc.IH)
qed

lemma processing_rows_kept:
  "\<not> is_claim operation \<Longrightarrow> j \<in> set (apply_op operation db) \<Longrightarrow> status j = Processing \<Longrightarrow> j \<in> set db"
proof (cases operation)
  case (Enqueue a b u m)
  assume "j \<in> set (apply_op operation db)" "status j = Processing"
  with Enqueue show ?thesis
    by (auto simp: enqueueAnalysisJob_def Let_def new_row_def split: if_splits)
next
  case (ClaimNext t u)
  assume "\<not> is_claim operation"
  with ClaimNext show ?thesis by simp
next
  case (Requeue i a e)
  assume "j \<in> set (apply_op operation db)" "status j = Processing"
  with Requeue show ?thesis
    by (auto simp: requeueJob_def requeue_update_def split: if_splits)
next
  case (MarkDone i t tf)
  assume "j \<in> set (apply_op operation db)" "status j = Processing"
  with MarkDone show ?thesis
    by (auto simp: markJobDone_def Let_def pruneDoneJobHistory_def done_update_def
             split: option.splits if_splits)
next
  case (MarkError i t e)
  assume "j \<in> set (apply_op operation db)" "status j = Processing"
  with MarkError show ?thesis
    by (auto simp: markJobError_def error_update_def split: if_splits)
qed

text \<open>
  The fast path of \<^verbatim>\<open>handleEvent\<close> sets its job to processing by an update of its own.
  It does so only when the user has no processing job, so the bound survives as long as
  the row carrying the derived id belongs to the user who sent the image.
\<close>

lemma job_id_fast_path_update [simp]: "job_id (fast_path_update t i j) = job_id j"
  by (simp add: fast_path_update_def)

lemma user_id_fast_path_update [simp]: "user_id (fast_path_update t i j) = user_id j"
  by (simp add: fast_path_update_def)

lemma fast_path_update_absent:
  "i \<notin> job_id ` set db \<Longrightarrow> map (fast_path_update t i) db = db"
  by (induction db) (auto simp: fast_path_update_def)

lemma count_fast_path_update:
  "distinct (map job_id db) \<Longrightarrow>
   count_status v s (map (fast_path_update t i) db) \<le> Suc (count_status v s db)"
proof (induction db)
  case Nil
  show ?case by (simp add: count_status_def)
next
  case (Cons j db)
  show ?case
  proof (cases "job_id j = i")
    case True
    with Cons.prems have "i \<notin> job_id ` set db" by auto
    then have "map (fast_path_update t i) db = db" by (rule fast_path_update_absent)
    then show ?thesis by (simp add: count_status_def)
  next
    case False
    then have "fast_path_update t i j = j" by (simp add: fast_path_update_def)
    with Cons show ?thesis by (simp add: count_status_def)
  qed
qed

lemma count_fast_path_update_other:
  "\<forall>j\<in>set db. job_id j = i \<longrightarrow> user_id j \<noteq> v \<Longrightarrow>
   count_status v s (map (fast_path_update t i) db) = count_status v s db"
  by (induction db) (auto simp: count_status_def fast_path_update_def)

lemma processing_after_fast_path:
  assumes d: "distinct (map job_id (jobs s))"
    and inv: "\<forall>v. count_status v Processing (jobs s) \<le> 1"
    and own: "\<forall>j\<in>set (jobs s). job_id j = makeJobId (at_id w) u m \<longrightarrow> user_id j = u"
  shows "count_status v Processing (jobs (fst (handleEvent_image e u m w s))) \<le> 1"
proof -
  define i where "i = makeJobId (at_id w) u m"
  define db1 where "db1 = fst (enqueueAnalysisJob (at_id w) (at_created w) u m (jobs s))"
  define db2 where "db2 = map (fast_path_update (at_claim w) i) db1"
  have enq: "enqueueAnalysisJob (at_id w) (at_created w) u m (jobs s) = (db1, (i, at_created w))"
    by (simp add: db1_def i_def enqueueAnalysisJob_def Let_def)
  have d1: "distinct (map job_id db1)"
    unfolding db1_def using d by (rule job_ids_enqueue)
  have inv1: "count_status x Processing db1 \<le> 1" for x
    unfolding db1_def using inv by (simp add: processing_after_enqueue)
  have own1: "\<forall>j\<in>set db1. job_id j = i \<longrightarrow> user_id j = u"
    using own by (auto simp: db1_def i_def enqueueAnalysisJob_def Let_def new_row_def)
  have fast: "count_status v Processing db2 \<le> 1" if idle: "count_status u Processing db1 = 0"
  proof (cases "v = u")
    case True
    have "count_status v Processing db2 \<le> Suc (count_status v Processing db1)"
      unfolding db2_def using d1 by (rule count_fast_path_update)
    with True idle show ?thesis by simp
  next
    case False
    with own1 have "\<forall>j\<in>set db1. job_id j = i \<longrightarrow> user_id j \<noteq> v" by auto
    then have "count_status v Processing db2 = count_status v Processing db1"
      unfolding db2_def by (rule count_fast_path_update_other)
    with inv1 [of v] show ?thesis by simp
  qed
  have requeued: "count_status v Processing (requeueJob i a x db2) \<le> 1"
    if "count_status u Processing db1 = 0" for a x
    using le_trans [OF processing_after_requeue [of v i a x db2] fast [OF that]] .
  show ?thesis
    using inv1 [of v] fast requeued
    by (simp add: handleEvent_image_def enq Let_def getUserQueueStats_def db2_def [symmetric]
             split: outcome.splits)
qed

text \<open>
  C1. In every state reached from the empty table by any sequence of enqueue, claimNext,
  requeue, markDone and markError, with any arguments, each user has at most one
  processing job. A row that is processing after an operation other than claimNext was a
  processing row, unchanged, before it. When the user already has a processing job,
  claimNext returns none and leaves the table as it is.
\<close>

theorem at_most_one_processing:
  "count_status u Processing (run_ops ops []) \<le> 1
   \<and> (\<not> is_claim operation \<longrightarrow>
        (\<forall>j\<in>set (apply_op operation db). status j = Processing \<longrightarrow> j \<in> set db))
   \<and> (count_status u Processing db > 0 \<longrightarrow> claimNextQueuedJob t u db = (db, None))"
proof (intro conjI impI ballI)
  show "count_status u Processing (run_ops ops []) \<le> 1" by (rule processing_run_ops)
next
  fix j
  assume "\<not> is_claim operation" "j \<in> set (apply_op operation db)" "status j = Processing"
  then show "j \<in> set db" by (rule processing_rows_kept)
next
  assume "count_status u Processing db > 0"
  then show "claimNextQueuedJob t u db = (db, None)" by (simp add: claimNextQueuedJob_def)
qed

theorem at_most_one_processing_witness:
  "count_status ''Uabcdef'' Processing
      (run_ops [Enqueue 1 1 ''Uabcdef'' ''m1'', ClaimNext 3 ''Uabcdef''] []) \<le> 1
   \<and> \<not> is_claim (MarkError ''j2'' 9 ''boom'')
   \<and> (\<exists>j\<in>set (apply_op (MarkError ''j2'' 9 ''boom'')
         [\<lparr>job_id = ''j1'', user_id = ''Uabcdef'', message_id = ''m1'', created_at = 1,
           status = Processing, attempt = 0, started_at = Some 3, finished_at = None,
           result_tf = None, last_error = None\<rparr>]).
        status j = Processing \<and> j \<in> set
         [\<lparr>job_id = ''j1'', user_id = ''Uabcdef'', message_id = ''m1'', created_at = 1,
           status = Processing, attempt = 0, started_at = Some 3, finished_at = None,
           result_tf = None, last_error = None\<rparr>])
   \<and> count_status ''Uabcdef'' Processing
         [\<lparr>job_id = ''j1'', user_id = ''Uabcdef'', message_id = ''m1'', created_at = 1,
           status = Processing, attempt = 0, started_at = Some 3, finished_at = None,
           result_tf = None, last_error = None\<rparr>] > 0
   \<and> claimNextQueuedJob 4 ''Uabcdef''
         [\<lparr>job_id = ''j1'', user_id = ''Uabcdef'', message_id = ''m1'', created_at = 1,
           status = Processing, attempt = 0, started_at = Some 3, finished_at = None,
           result_tf = None, last_error = None\<rparr>]
       = ([\<lparr>job_id = ''j1'', user_id = ''Uabcdef'', message_id = ''m1'', created_at = 1,
           status = Processing, attempt = 0, started_at = Some 3, finished_at = None,
           result_tf = None, last_error = None\<rparr>], None)"
  using at_most_one_processing
    [of "''Uabcdef''" "[Enqueue 1 1 ''Uabcdef'' ''m1'', ClaimNext 3 ''Uabcdef'']"
        "MarkError ''j2'' 9 ''boom''"
        "[\<lparr>job_id = ''j1'', user_id = ''Uabcdef'', message_id = ''m1'', created_at = 1,
           status = Processing, attempt = 0, started_at = Some 3, finished_at = None,
           result_tf = None, last_error = None\<rparr>]" 4]
  by (simp add: count_status_def markJobError_def error_update_def)

subsection \<open>What a claim writes\<close>

lemma claim_update_one_row:
  assumes d: "distinct (map job_id db)" and n: "nxt \<in> set db" and q: "status nxt = Queued"
  shows "map (claim_update t (job_id nxt)) db
           = map (\<lambda>r. if r = nxt
                       then nxt\<lparr>status := Processing, started_at := Some t, last_error := None\<rparr>
                       else r) db"
proof (rule map_cong [OF refl])
  fix r assume r: "r \<in> set db"
  show "claim_update t (job_id nxt) r
          = (if r = nxt then nxt\<lparr>status := Processing, started_at := Some t, last_error := None\<rparr>
             else r)"
    using same_id_same_row [OF d r n] q by (auto simp: claim_update_def)
qed

lemma claim_result:
  assumes d: "distinct (map job_id db)" and c: "claimNextQueuedJob t u db = (db', Some c)"
  shows "\<exists>j\<in>set db. job_id j = cj_job_id c \<and> user_id j = u \<and> status j = Queued \<and>
           db' = map (\<lambda>r. if r = j
                           then j\<lparr>status := Processing, started_at := Some t, last_error := None\<rparr>
                           else r) db"
proof (cases "sort_key created_at (filter (\<lambda>j. user_id j = u \<and> status j = Queued) db)")
  case Nil
  with c show ?thesis by (simp add: claimNextQueuedJob_def split: if_splits)
next
  case (Cons nxt rest)
  then have nx: "nxt \<in> set db" "user_id nxt = u" "status nxt = Queued"
    using head_of_sorted_queue by blast+
  from c Cons have "db' = map (claim_update t (job_id nxt)) db" and "cj_job_id c = job_id nxt"
    by (auto simp: claimNextQueuedJob_def Let_def split: if_splits)
  with claim_update_one_row [OF d nx(1) nx(3)] nx show ?thesis by auto
qed

lemma in_flight_clean_op:
  "\<forall>j\<in>set db. in_flight_clean j \<Longrightarrow> \<forall>j\<in>set (apply_op operation db). in_flight_clean j"
proof (cases operation)
  case (Enqueue a b u m)
  assume "\<forall>j\<in>set db. in_flight_clean j"
  with Enqueue show ?thesis
    by (auto simp: enqueueAnalysisJob_def Let_def new_row_def in_flight_clean_def)
next
  case (ClaimNext t u)
  assume "\<forall>j\<in>set db. in_flight_clean j"
  with ClaimNext show ?thesis
    by (auto simp: claimNextQueuedJob_def Let_def claim_update_def in_flight_clean_def
             split: list.splits if_splits)
next
  case (Requeue i a e)
  assume "\<forall>j\<in>set db. in_flight_clean j"
  with Requeue show ?thesis
    by (auto simp: requeueJob_def requeue_update_def in_flight_clean_def split: if_splits)
next
  case (MarkDone i t tf)
  assume "\<forall>j\<in>set db. in_flight_clean j"
  with MarkDone show ?thesis
    by (auto simp: markJobDone_def Let_def pruneDoneJobHistory_def done_update_def
                   in_flight_clean_def split: option.splits if_splits)
next
  case (MarkError i t e)
  assume "\<forall>j\<in>set db. in_flight_clean j"
  with MarkError show ?thesis
    by (auto simp: markJobError_def error_update_def in_flight_clean_def split: if_splits)
qed

lemma in_flight_clean_run: "\<forall>j\<in>set (run_ops ops []). in_flight_clean j"
proof (induction ops rule: rev_induct)
  case Nil
  show ?case by (simp add: run_ops_def)
next
  case (snoc operation ops)
  then show ?case unfolding run_ops_snoc by (rule in_flight_clean_op)
qed

text \<open>
  C10. A successful claimNext changes exactly one row, the queued row of the user whose
  id it returns, and writes three columns of it: status becomes processing, started_at
  the clock reading, and last_error NULL whatever it held. Hence in every state reached
  by the store operations no processing job carries a last_error: the message a requeue
  recorded is gone once the next attempt has started.
\<close>

theorem claim_resets_last_error:
  "(distinct (map job_id db) \<and> claimNextQueuedJob t u db = (db', Some c) \<longrightarrow>
      (\<exists>j\<in>set db. job_id j = cj_job_id c \<and> user_id j = u \<and> status j = Queued \<and>
         db' = map (\<lambda>r. if r = j
                         then j\<lparr>status := Processing, started_at := Some t, last_error := None\<rparr>
                         else r) db))
   \<and> (\<forall>j\<in>set (run_ops ops []). status j = Processing \<longrightarrow> last_error j = None)"
  using claim_result [of db t u db' c] in_flight_clean_run [of ops]
  by (simp add: in_flight_clean_def)

lemma job_id_example_1: "makeJobId 1 ''Uabcdef'' ''m1'' = ''1_abcdef_m1''"
  by (simp add: makeJobId_def numberToString_def dec_nat.simps digit_char_def slice_last_def)

lemma run_example_retry:
  "run_ops [Enqueue 1 1 ''Uabcdef'' ''m1'', ClaimNext 2 ''Uabcdef'',
            Requeue ''1_abcdef_m1'' 1 ''HTTP 429'', ClaimNext 3 ''Uabcdef''] []
   = [\<lparr>job_id = ''1_abcdef_m1'', user_id = ''Uabcdef'', message_id = ''m1'', created_at = 1,
       status = Processing, attempt = 1, started_at = Some 3, finished_at = None,
       result_tf = None, last_error = None\<rparr>]"
  by (simp add: run_ops_def enqueueAnalysisJob_def new_row_def job_id_example_1 Let_def
        claimNextQueuedJob_def count_status_def claim_update_def requeueJob_def requeue_update_def)

theorem claim_resets_last_error_witness:
  "distinct (map job_id
      [\<lparr>job_id = ''j1'', user_id = ''Uabcdef'', message_id = ''m1'', created_at = 1,
        status = Queued, attempt = 1, started_at = None, finished_at = None,
        result_tf = None, last_error = Some ''HTTP 429''\<rparr>])
   \<and> claimNextQueuedJob 5 ''Uabcdef''
      [\<lparr>job_id = ''j1'', user_id = ''Uabcdef'', message_id = ''m1'', created_at = 1,
        status = Queued, attempt = 1, started_at = None, finished_at = None,
        result_tf = None, last_error = Some ''HTTP 429''\<rparr>]
     = ([\<lparr>job_id = ''j1'', user_id = ''Uabcdef'', message_id = ''m1'', created_at = 1,
        status = Processing, attempt = 1, started_at = Some 5, finished_at = None,
        result_tf = None, last_error = None\<rparr>],
        Some \<lparr>cj_job_id = ''j1'', cj_message_id = ''m1'', cj_created_at = 1, cj_attempt = 1,
              cj_started_at = 5\<rparr>)
   \<and> (\<exists>j\<in>set (run_ops [Enqueue 1 1 ''Uabcdef'' ''m1'', ClaimNext 2 ''Uabcdef'',
            Requeue ''1_abcdef_m1'' 1 ''HTTP 429'', ClaimNext 3 ''Uabcdef''] []).
         status j = Processing \<and> last_error j = None)"
  using claim_resets_last_error
    [of "[\<lparr>job_id = ''j1'', user_id = ''Uabcdef'', message_id = ''m1'', created_at = 1,
        status = Queued, attempt = 1, started_at = None, finished_at = None,
        result_tf = None, last_error = Some ''HTTP 429''\<rparr>]" 5 "''Uabcdef''"
        "[\<lparr>job_id = ''j1'', user_id = ''Uabcdef'', message_id = ''m1'', created_at = 1,
        status = Processing, attempt = 1, started_at = Some 5, finished_at = None,
        result_tf = None, last_error = None\<rparr>]"
        "\<lparr>cj_job_id = ''j1'', cj_message_id = ''m1'', cj_created_at = 1, cj_attempt = 1,
              cj_started_at = 5\<rparr>"
        "[Enqueue 1 1 ''Uabcdef'' ''m1'', ClaimNext 2 ''Uabcdef'',
            Requeue ''1_abcdef_m1'' 1 ''HTTP 429'', ClaimNext 3 ''Uabcdef'']"]
  by (simp add: run_example_retry claimNextQueuedJob_def count_status_def claim_update_def)

subsection \<open>First in, first out\<close>

lemma sort_key_tail:
  "sort_key f xs = x # rest \<Longrightarrow> sort_key f (remove1 x xs) = rest"
proof (induction xs arbitrary: x rest)
  case Nil
  then show ?case by simp
next
  case (Cons a xs)
  show ?case
  proof (cases "sort_key f xs")
    case Nil
    then have "xs = []" by (metis length_0_conv length_sort)
    with Cons.prems show ?thesis by simp
  next
    case (Cons y ys)
    note IH = Cons.IH [OF Cons]
    show ?thesis
    proof (cases "f a \<le> f y")
      case True
      with Cons Cons.prems show ?thesis by simp
    next
      case False
      with Cons Cons.prems have x: "x = y" "rest = insort_key f a ys" by simp_all
      from False have "a \<noteq> y" by auto
      with x IH show ?thesis by simp
    qed
  qed
qed

lemma count_zero_iff:
  "count_status u s db = 0 \<longleftrightarrow> (\<forall>j\<in>set db. \<not> (user_id j = u \<and> status j = s))"
  by (simp add: count_status_def filter_empty_conv)

lemma claim_success:
  assumes h: "sort_key created_at (queued_of u db) = nxt # rest"
    and ne: "job_id nxt \<noteq> []" and idle: "count_status u Processing db = 0"
  shows "claimNextQueuedJob t u db =
           (map (claim_update t (job_id nxt)) db,
            Some \<lparr>cj_job_id = job_id nxt, cj_message_id = message_id nxt,
                  cj_created_at = created_at nxt, cj_attempt = attempt nxt,
                  cj_started_at = t\<rparr>)"
proof -
  from h have nx: "nxt \<in> set db" "user_id nxt = u" "status nxt = Queued"
    using head_of_sorted_queue unfolding queued_of_def by blast+
  then have "nxt \<in> set (filter (\<lambda>j. job_id j = job_id nxt \<and> status j = Queued) db)" by simp
  then have "length (filter (\<lambda>j. job_id j = job_id nxt \<and> status j = Queued) db) \<noteq> 0"
    by (metis length_0_conv empty_iff list.set(1))
  with h ne idle show ?thesis
    by (simp add: claimNextQueuedJob_def queued_of_def Let_def)
qed

lemma filter_map_except:
  "\<forall>r\<in>set db. (job_id r = i \<longrightarrow> \<not> P (g r)) \<and> (job_id r \<noteq> i \<longrightarrow> g r = r) \<Longrightarrow>
   filter P (map g db) = filter (\<lambda>r. P r \<and> job_id r \<noteq> i) db"
  by (induction db) auto


lemma prune_filter:
  "(\<And>r. P r \<Longrightarrow> status r \<noteq> Done) \<Longrightarrow> filter P (pruneDoneJobHistory u k db) = filter P db"
  unfolding pruneDoneJobHistory_def Let_def filter_filter
  by (rule filter_cong [OF refl]) auto

lemma markDone_filter:
  assumes "\<And>r. P r \<Longrightarrow> status r \<noteq> Done"
  shows "filter P (markJobDone i t tf db) = filter P (map (done_update i t tf) db)"
  using prune_filter [of P, OF assms]
  by (simp add: markJobDone_def Let_def split: option.splits)

lemma cycle_filter:
  assumes d: "distinct (map job_id db)" and n: "nxt \<in> set db"
    and P: "\<And>r. P r \<Longrightarrow> status r \<noteq> Done"
  shows "filter P (markJobDone (job_id nxt) td tf (map (claim_update tc (job_id nxt)) db))
           = filter (\<lambda>r. r \<noteq> nxt) (filter P db)"
proof -
  let ?i = "job_id nxt"
  let ?g = "\<lambda>r. done_update ?i td tf (claim_update tc ?i r)"
  have "filter P (map ?g db) = filter (\<lambda>r. P r \<and> job_id r \<noteq> ?i) db"
  proof (rule filter_map_except, intro ballI conjI impI)
    fix r assume "r \<in> set db" "job_id r = ?i"
    then have "status (?g r) = Done" by (simp add: done_update_def)
    then show "\<not> P (?g r)" using P by blast
  next
    fix r assume "r \<in> set db" "job_id r \<noteq> ?i"
    then show "?g r = r" by (simp add: done_update_def claim_update_def)
  qed
  also have "\<dots> = filter (\<lambda>r. r \<noteq> nxt) (filter P db)"
    unfolding filter_filter
    by (rule filter_cong [OF refl]) (use same_id_same_row [OF d _ n] in auto)
  finally show ?thesis
    by (simp add: markDone_filter [of P, OF P] comp_def)
qed

lemma distinct_rows: "distinct (map job_id db) \<Longrightarrow> distinct db"
  by (simp add: distinct_map)

lemma remove1_as_filter: "distinct xs \<Longrightarrow> remove1 x xs = filter (\<lambda>r. r \<noteq> x) xs"
  by (simp add: distinct_remove1_removeAll removeAll_filter_not_eq) (metis)

lemma cycle_state:
  assumes d: "distinct (map job_id db)"
    and h: "sort_key created_at (queued_of u db) = nxt # rest"
    and idle: "count_status u Processing db = 0"
  shows "sort_key created_at
            (queued_of u (markJobDone (job_id nxt) td tf (map (claim_update tc (job_id nxt)) db)))
           = rest"
    and "count_status u Processing
            (markJobDone (job_id nxt) td tf (map (claim_update tc (job_id nxt)) db)) = 0"
    and "count_status u Queued
            (markJobDone (job_id nxt) td tf (map (claim_update tc (job_id nxt)) db))
           = count_status u Queued db - 1"
proof -
  let ?db2 = "markJobDone (job_id nxt) td tf (map (claim_update tc (job_id nxt)) db)"
  from h have nx: "nxt \<in> set db" "user_id nxt = u" "status nxt = Queued"
    using head_of_sorted_queue unfolding queued_of_def by blast+
  have dq: "distinct (queued_of u db)"
    unfolding queued_of_def using distinct_rows [OF d] by simp
  have q: "queued_of u ?db2 = remove1 nxt (queued_of u db)"
    unfolding queued_of_def
    using cycle_filter [OF d nx(1), of "\<lambda>j. user_id j = u \<and> status j = Queued" td tf tc]
          remove1_as_filter [OF dq [unfolded queued_of_def]]
    by simp
  show "sort_key created_at (queued_of u ?db2) = rest"
    using sort_key_tail [OF h] q by simp
  have "filter (\<lambda>j. user_id j = u \<and> status j = Processing) db = []"
    using idle by (simp add: count_status_def)
  then show "count_status u Processing ?db2 = 0"
    unfolding count_status_def
    using cycle_filter [OF d nx(1), of "\<lambda>j. user_id j = u \<and> status j = Processing" td tf tc]
    by simp
  have "nxt \<in> set (queued_of u db)" using nx by (simp add: queued_of_def)
  then have "length (remove1 nxt (queued_of u db)) = length (queued_of u db) - 1"
    by (simp add: length_remove1)
  then show "count_status u Queued ?db2 = count_status u Queued db - 1"
    using q by (simp add: count_status_def queued_of_def)
qed

lemma drain_sorted:
  assumes "distinct (map job_id db)" and "[] \<notin> job_id ` set db"
    and "count_status u Processing db = 0"
    and "count_status u Queued db \<le> length cycles"
  shows "fst (drain u cycles db) = map job_id (sort_key created_at (queued_of u db))"
  using assms
proof (induction cycles arbitrary: db)
  case Nil
  then have "queued_of u db = []" by (simp add: count_status_def queued_of_def)
  then show ?case by simp
next
  case (Cons cyc cycles)
  obtain tc td tf where cyc: "cyc = (tc, td, tf)" by (cases cyc) auto
  show ?case
  proof (cases "sort_key created_at (queued_of u db)")
    case Nil
    then show ?thesis
      using Cons.prems(3) by (simp add: cyc claimNextQueuedJob_def queued_of_def)
  next
    case (Cons nxt rest)
    let ?db2 = "markJobDone (job_id nxt) td tf (map (claim_update tc (job_id nxt)) db)"
    from Cons have nx: "nxt \<in> set db"
      using head_of_sorted_queue unfolding queued_of_def by blast
    with Cons.prems(2) have ne: "job_id nxt \<noteq> []" by force
    note st = cycle_state [OF Cons.prems(1) Cons Cons.prems(3), of td tf tc]
    have d2: "distinct (map job_id ?db2)"
      using Cons.prems(1) by (simp add: distinct_markDone comp_def)
    have "set ?db2 \<subseteq> set (map (done_update (job_id nxt) td tf) (map (claim_update tc (job_id nxt)) db))"
      by (auto simp: markJobDone_def Let_def pruneDoneJobHistory_def split: option.splits)
    then have "job_id ` set ?db2 \<subseteq> job_id ` set db" by force
    with Cons.prems(2) have e2: "[] \<notin> job_id ` set ?db2" by blast
    have l2: "count_status u Queued ?db2 \<le> length cycles"
      using st(3) Cons.prems(4) by simp
    have "fst (drain u cycles ?db2) = map job_id rest"
      using Cons.IH [OF d2 e2 st(2) l2] st(1) by simp
    then show ?thesis
      using claim_success [OF Cons ne Cons.prems(3), of tc] Cons
      by (auto simp: cyc split: prod.splits)
  qed
qed

lemma oldest_claimed:
  assumes "claimNextQueuedJob t u db = (db1, Some c)" and "j \<in> set (queued_of u db)"
  shows "cj_created_at c \<le> created_at j"
proof (cases "sort_key created_at (queued_of u db)")
  case Nil
  with assms show ?thesis by (simp add: claimNextQueuedJob_def queued_of_def split: if_splits)
next
  case (Cons nxt rest)
  have "sorted (map created_at (sort_key created_at (queued_of u db)))" by simp
  moreover have "j \<in> set (sort_key created_at (queued_of u db))" using assms(2) by simp
  ultimately have "created_at nxt \<le> created_at j" unfolding Cons by auto
  moreover have "cj_created_at c = created_at nxt"
    using assms(1) Cons by (auto simp: claimNextQueuedJob_def queued_of_def Let_def split: if_splits)
  ultimately show ?thesis by simp
qed

text \<open>
  C2. For a table with unique, non-empty job ids in which the user has no processing job,
  draining the user's queue by cycles of claimNext and markDone, with at least as many
  cycles as there are queued jobs, claims and completes the jobs in ascending order of
  created_at, jobs with equal created_at in their order of insertion (the stable sort of
  the queued rows). When the queued rows were inserted with non-decreasing created_at,
  as enqueueing A, B, C in that order does, this is the order of insertion. Every job
  that claimNext returns is an oldest queued job of the user.
\<close>

theorem fifo_order:
  assumes "distinct (map job_id db)" and "[] \<notin> job_id ` set db"
    and "count_status u Processing db = 0"
    and "count_status u Queued db \<le> length cycles"
  shows "fst (drain u cycles db) = map job_id (sort_key created_at (queued_of u db))
       \<and> (sorted (map created_at (queued_of u db)) \<longrightarrow>
            fst (drain u cycles db) = map job_id (queued_of u db))
       \<and> (\<forall>t db1 c. claimNextQueuedJob t u db = (db1, Some c) \<longrightarrow>
            (\<forall>j\<in>set (queued_of u db). cj_created_at c \<le> created_at j))"
  using drain_sorted [OF assms] oldest_claimed [of _ u db]
  by (auto simp: sort_key_id_if_sorted)

lemma job_id_example_A: "makeJobId 5 ''Uabcdef'' ''mA'' = ''5_abcdef_mA''"
  by (simp add: makeJobId_def numberToString_def dec_nat.simps digit_char_def slice_last_def)

lemma job_id_example_B: "makeJobId 5 ''Uabcdef'' ''mB'' = ''5_abcdef_mB''"
  by (simp add: makeJobId_def numberToString_def dec_nat.simps digit_char_def slice_last_def)

lemma job_id_example_C: "makeJobId 7 ''Uabcdef'' ''mC'' = ''7_abcdef_mC''"
  by (simp add: makeJobId_def numberToString_def dec_nat.simps digit_char_def slice_last_def)

lemma run_example_abc:
  "run_ops [Enqueue 5 5 ''Uabcdef'' ''mA'', Enqueue 5 5 ''Uabcdef'' ''mB'',
            Enqueue 7 7 ''Uabcdef'' ''mC''] []
   = [new_row ''5_abcdef_mA'' ''Uabcdef'' ''mA'' 5, new_row ''5_abcdef_mB'' ''Uabcdef'' ''mB'' 5,
      new_row ''7_abcdef_mC'' ''Uabcdef'' ''mC'' 7]"
  by (simp add: run_ops_def enqueueAnalysisJob_def Let_def job_id_example_A job_id_example_B
        job_id_example_C new_row_def)

theorem fifo_order_witness:
  "distinct (map job_id (run_ops [Enqueue 5 5 ''Uabcdef'' ''mA'', Enqueue 5 5 ''Uabcdef'' ''mB'',
            Enqueue 7 7 ''Uabcdef'' ''mC''] []))
   \<and> [] \<notin> job_id ` set (run_ops [Enqueue 5 5 ''Uabcdef'' ''mA'', Enqueue 5 5 ''Uabcdef'' ''mB'',
            Enqueue 7 7 ''Uabcdef'' ''mC''] [])
   \<and> count_status ''Uabcdef'' Processing (run_ops [Enqueue 5 5 ''Uabcdef'' ''mA'',
            Enqueue 5 5 ''Uabcdef'' ''mB'', Enqueue 7 7 ''Uabcdef'' ''mC''] []) = 0
   \<and> count_status ''Uabcdef'' Queued (run_ops [Enqueue 5 5 ''Uabcdef'' ''mA'',
            Enqueue 5 5 ''Uabcdef'' ''mB'', Enqueue 7 7 ''Uabcdef'' ''mC''] [])
        \<le> length [(10, 11, ''H4''), (12, 13, ''H1''), (14, 15, ''M15''), (16::int, 17::int, ''1D'')]
   \<and> fst (drain ''Uabcdef'' [(10, 11, ''H4''), (12, 13, ''H1''), (14, 15, ''M15''), (16, 17, ''1D'')]
        (run_ops [Enqueue 5 5 ''Uabcdef'' ''mA'', Enqueue 5 5 ''Uabcdef'' ''mB'',
            Enqueue 7 7 ''Uabcdef'' ''mC''] []))
       = [''5_abcdef_mA'', ''5_abcdef_mB'', ''7_abcdef_mC'']"
  using fifo_order [of "run_ops [Enqueue 5 5 ''Uabcdef'' ''mA'', Enqueue 5 5 ''Uabcdef'' ''mB'',
            Enqueue 7 7 ''Uabcdef'' ''mC''] []" "''Uabcdef''"
        "[(10, 11, ''H4''), (12, 13, ''H1''), (14, 15, ''M15''), (16, 17, ''1D'')]"]
  by (simp add: run_example_abc new_row_def count_status_def queued_of_def)

subsection \<open>Completing and pruning\<close>

lemma set_order_desc [simp]: "set (order_by_finished_desc xs) = set xs"
  by (auto simp: order_by_finished_desc_def index_scan_def)

lemma length_order_desc [simp]: "length (order_by_finished_desc xs) = length xs"
  using sum_length_filter_compl [of "\<lambda>j. finished_at j \<noteq> None" "index_scan xs"]
  by (simp add: order_by_finished_desc_def index_scan_def)

lemma distinct_order_desc: "distinct xs \<Longrightarrow> distinct (order_by_finished_desc xs)"
  by (auto simp: order_by_finished_desc_def index_scan_def)

lemma take_drop_sorted:
  assumes "sorted_wrt R xs" and "k \<in> set (take n xs)" and "r \<in> set (drop n xs)"
  shows "R k r"
proof -
  have "sorted_wrt R (take n xs @ drop n xs)" using assms(1) by simp
  then show ?thesis using assms(2,3) unfolding sorted_wrt_append by blast
qed

lemma desc_key_order:
  "finished_at k \<noteq> None \<Longrightarrow> finished_at r \<noteq> None \<Longrightarrow>
   - the (finished_at k) \<le> - the (finished_at r) \<Longrightarrow> finished_at r \<le> finished_at k"
  by (cases "finished_at k"; cases "finished_at r") simp_all

lemma sorted_nulls:
  "sorted_wrt (\<lambda>k r. finished_at r \<le> finished_at k) (filter (\<lambda>j. finished_at j = None) xs)"
  by (rule sorted_wrt_mono_rel [where P = "\<lambda>k r. True"]) simp_all

lemma sorted_order_desc:
  "sorted_wrt (\<lambda>k r. finished_at r \<le> finished_at k) (order_by_finished_desc xs)"
proof -
  let ?S = "sort_key (\<lambda>j. - the (finished_at j))
              (filter (\<lambda>j. finished_at j \<noteq> None) (index_scan xs))"
  have "sorted (map (\<lambda>j. - the (finished_at j)) ?S)" by (rule sorted_sort_key)
  then have s: "sorted_wrt (\<lambda>k r. - the (finished_at k) \<le> - the (finished_at r)) ?S"
    by (simp only: sorted_map)
  have n: "\<And>k. k \<in> set ?S \<Longrightarrow> finished_at k \<noteq> None" by simp
  have "sorted_wrt (\<lambda>k r. finished_at r \<le> finished_at k) ?S"
    by (rule sorted_wrt_mono_rel [OF _ s]) (rule desc_key_order [OF n n])
  moreover have "\<forall>k\<in>set ?S. \<forall>r\<in>set (filter (\<lambda>j. finished_at j = None) (index_scan xs)).
                   finished_at r \<le> finished_at k"
    by simp
  ultimately show ?thesis
    unfolding order_by_finished_desc_def index_scan_def sorted_wrt_append
    using sorted_nulls by blast
qed

lemma prune_alt:
  "pruneDoneJobHistory u kc db =
     filter (\<lambda>j. \<not> (user_id j = u \<and> status j = Done \<and> job_id j \<notin> job_id ` set (kept_rows u kc db))) db"
  by (simp add: pruneDoneJobHistory_def Let_def kept_rows_def done_of_def)

lemma kept_subset: "set (kept_rows u kc db) \<subseteq> set (done_of u db)"
  unfolding kept_rows_def using set_take_subset [of _ "order_by_finished_desc (done_of u db)"]
  by simp

lemma kept_member:
  assumes d: "distinct (map job_id db)" and r: "r \<in> set db"
  shows "job_id r \<in> job_id ` set (kept_rows u kc db) \<longleftrightarrow> r \<in> set (kept_rows u kc db)"
proof
  assume "job_id r \<in> job_id ` set (kept_rows u kc db)"
  then obtain k where k: "k \<in> set (kept_rows u kc db)" "job_id r = job_id k" by auto
  with kept_subset have "k \<in> set db" by (auto simp: done_of_def)
  with same_id_same_row [OF d r] k show "r \<in> set (kept_rows u kc db)" by auto
qed auto

lemma prune_done_rows:
  assumes d: "distinct (map job_id db)"
  shows "done_of u (pruneDoneJobHistory u kc db)
           = filter (\<lambda>r. r \<in> set (kept_rows u kc db)) (done_of u db)"
  unfolding prune_alt done_of_def filter_filter
  by (rule filter_cong [OF refl]) (use kept_member [OF d] in auto)

lemma prune_other_rows:
  "filter (\<lambda>r. \<not> (user_id r = u \<and> status r = Done)) (pruneDoneJobHistory u kc db)
     = filter (\<lambda>r. \<not> (user_id r = u \<and> status r = Done)) db"
  unfolding prune_alt filter_filter
  by (rule filter_cong [OF refl]) auto

lemma distinct_kept: "distinct (map job_id db) \<Longrightarrow> distinct (kept_rows u kc db)"
  unfolding kept_rows_def done_of_def
  by (intro distinct_take distinct_order_desc distinct_filter) (simp add: distinct_map)

lemma prune_done_count:
  assumes d: "distinct (map job_id db)"
  shows "count_status u Done (pruneDoneJobHistory u kc db)
           = min (nat (max 1 (if kc = 0 then 5 else kc))) (count_status u Done db)"
proof -
  have dd: "distinct (done_of u db)"
    unfolding done_of_def using d by (simp add: distinct_map)
  have "length (filter (\<lambda>r. r \<in> set (kept_rows u kc db)) (done_of u db))
          = card ({r. r \<in> set (kept_rows u kc db)} \<inter> set (done_of u db))"
    using dd by (rule distinct_length_filter)
  also have "{r. r \<in> set (kept_rows u kc db)} \<inter> set (done_of u db) = set (kept_rows u kc db)"
    using kept_subset [of u kc db] by auto
  also have "card (set (kept_rows u kc db)) = length (kept_rows u kc db)"
    using distinct_kept [OF d] by (rule distinct_card)
  also have "\<dots> = min (nat (max 1 (if kc = 0 then 5 else kc))) (length (done_of u db))"
    by (simp add: kept_rows_def min.commute)
  finally show ?thesis
    using prune_done_rows [OF d, of u kc]
    by (simp add: count_status_def done_of_def)
qed

lemma prune_keeps_latest:
  assumes d: "distinct (map job_id db)"
    and k: "k \<in> set (done_of u (pruneDoneJobHistory u kc db))"
    and r: "r \<in> set (done_of u db)" "r \<notin> set (pruneDoneJobHistory u kc db)"
  shows "finished_at r \<le> finished_at k"
proof -
  let ?n = "nat (max 1 (if kc = 0 then 5 else kc))"
  let ?O = "order_by_finished_desc (done_of u db)"
  from k have "k \<in> set (take ?n ?O)"
    unfolding prune_done_rows [OF d] by (simp add: kept_rows_def)
  moreover
  from r have "r \<in> set db" "r \<notin> set (kept_rows u kc db)"
    using kept_member [OF d, of r u kc] by (auto simp: prune_alt done_of_def)
  then have "r \<notin> set (take ?n ?O)" by (simp add: kept_rows_def)
  moreover have "r \<in> set (take ?n ?O @ drop ?n ?O)" using r(1) by simp
  ultimately have "r \<in> set (drop ?n ?O)" "k \<in> set (take ?n ?O)"
    unfolding set_append by blast+
  with take_drop_sorted [OF sorted_order_desc] show ?thesis by blast
qed

lemma update_absent:
  "(\<And>r. job_id r \<noteq> i \<Longrightarrow> g r = r) \<Longrightarrow> i \<notin> job_id ` set db \<Longrightarrow> map g db = db"
  by (induction db) auto

lemma count_update_le:
  assumes g: "\<And>r. job_id r \<noteq> i \<Longrightarrow> g r = r"
  shows "distinct (map job_id db) \<Longrightarrow> length (filter P (map g db)) \<le> Suc (length (filter P db))"
proof (induction db)
  case Nil
  show ?case by simp
next
  case (Cons j db)
  show ?case
  proof (cases "job_id j = i")
    case True
    with Cons.prems have "i \<notin> job_id ` set db" by auto
    then have "map g db = db" using g by (rule update_absent [rotated])
    then show ?thesis by simp
  next
    case False
    then have "g j = j" by (rule g)
    with Cons show ?thesis by simp
  qed
qed

lemma count_update_other:
  assumes g: "\<And>r. job_id r \<noteq> i \<Longrightarrow> g r = r"
  shows "\<forall>r\<in>set db. job_id r = i \<longrightarrow> \<not> P (g r) \<and> \<not> P r \<Longrightarrow>
         length (filter P (map g db)) = length (filter P db)"
proof (induction db)
  case Nil
  show ?case by simp
next
  case (Cons j db)
  then show ?case using g [of j] by (cases "job_id j = i") auto
qed

lemma done_update_other [simp]: "job_id r \<noteq> i \<Longrightarrow> done_update i t tf r = r"
  by (simp add: done_update_def)

lemma find_done_update:
  "distinct (map job_id db) \<Longrightarrow> j \<in> set db \<Longrightarrow>
   find (\<lambda>r. job_id r = job_id j) (map (done_update (job_id j) t tf) db)
     = Some (done_update (job_id j) t tf j)"
proof (induction db)
  case Nil
  then show ?case by simp
next
  case (Cons a db)
  then show ?case by (cases "job_id a = job_id j") (auto simp: rev_image_eqI)
qed

lemma find_done_update_none:
  "i \<notin> job_id ` set db \<Longrightarrow> find (\<lambda>r. job_id r = i) (map (done_update i t tf) db) = None"
  by (induction db) auto

lemma markDone_absent:
  assumes "i \<notin> job_id ` set db"
  shows "markJobDone i t tf db = db"
proof -
  have "map (done_update i t tf) db = db"
    using assms by (intro update_absent [of i]) simp_all
  moreover have "find (\<lambda>r. job_id r = i) db = None"
    using assms by (auto simp: find_None_iff)
  ultimately show ?thesis by (simp add: markJobDone_def Let_def)
qed

lemma count_prune_le:
  "count_status v s (pruneDoneJobHistory u k db) \<le> count_status v s db"
  unfolding count_status_def pruneDoneJobHistory_def Let_def
  by (rule count_filter_le)

lemma markDone_as_prune:
  assumes "distinct (map job_id db)" and "j \<in> set db"
  shows "markJobDone (job_id j) t tf db =
           (if user_id j \<noteq> [] then pruneDoneJobHistory (user_id j) 5 (map (done_update (job_id j) t tf) db)
            else map (done_update (job_id j) t tf) db)"
  by (simp add: markJobDone_def Let_def find_done_update [OF assms])

lemma done_update_one_row:
  assumes d: "distinct (map job_id db)" and n: "j \<in> set db"
  shows "map (done_update (job_id j) t tf) db
           = map (\<lambda>r. if r = j
                       then j\<lparr>status := Done, finished_at := Some t,
                              result_tf := (if tf = [] then None else Some tf)\<rparr>
                       else r) db"
proof (rule map_cong [OF refl])
  fix r assume r: "r \<in> set db"
  show "done_update (job_id j) t tf r
          = (if r = j then j\<lparr>status := Done, finished_at := Some t,
                              result_tf := (if tf = [] then None else Some tf)\<rparr>
             else r)"
    using same_id_same_row [OF d r n] by (auto simp: done_update_def)
qed

lemma done_bound_markDone:
  assumes d: "distinct (map job_id db)"
    and inv: "\<And>v. v \<noteq> [] \<Longrightarrow> count_status v Done db \<le> 5"
    and v: "v \<noteq> []"
  shows "count_status v Done (markJobDone i t tf db) \<le> 5"
proof (cases "i \<in> job_id ` set db")
  case False
  then show ?thesis using inv [OF v] by (simp add: markDone_absent)
next
  case True
  then obtain j where j: "j \<in> set db" "i = job_id j" by auto
  let ?upd = "map (done_update i t tf) db"
  have du: "distinct (map job_id ?upd)" using d by (simp add: comp_def)
  show ?thesis
  proof (cases "user_id j = v")
    case True
    then have "markJobDone i t tf db = pruneDoneJobHistory v 5 ?upd"
      using markDone_as_prune [OF d j(1), of t tf] v j(2) by simp
    then show ?thesis using prune_done_count [OF du, of v 5] by simp
  next
    case False
    have "\<forall>r\<in>set db. job_id r = i \<longrightarrow>
            \<not> (user_id (done_update i t tf r) = v \<and> status (done_update i t tf r) = Done)
            \<and> \<not> (user_id r = v \<and> status r = Done)"
      using same_id_same_row [OF d _ j(1)] False j(2) by auto
    then have same: "count_status v Done ?upd = count_status v Done db"
      unfolding count_status_def by (rule count_update_other [rotated]) simp
    have "count_status v Done (markJobDone i t tf db) \<le> count_status v Done ?upd"
      using markDone_as_prune [OF d j(1), of t tf] j(2) count_prune_le [of v Done "user_id j" 5 ?upd]
      by (cases "user_id j = []") simp_all
    with same inv [OF v] show ?thesis by simp
  qed
qed

lemma done_bound_op:
  assumes d: "distinct (map job_id db)"
    and inv: "\<And>v. v \<noteq> [] \<Longrightarrow> count_status v Done db \<le> 5"
    and v: "v \<noteq> []"
  shows "count_status v Done (apply_op operation db) \<le> 5"
proof (cases operation)
  case (Enqueue a b u m)
  then show ?thesis using inv [OF v]
    by (simp add: enqueueAnalysisJob_def Let_def count_status_def new_row_def)
next
  case (ClaimNext t u)
  have "count_status v Done (fst (claimNextQueuedJob t u db)) \<le> count_status v Done db"
  proof -
    have "\<And>i. count_status v Done (map (claim_update t i) db) \<le> count_status v Done db"
      unfolding count_status_def
      by (rule count_map_le) (auto simp: claim_update_def split: if_splits)
    then show ?thesis
      by (simp add: claimNextQueuedJob_def Let_def split: list.splits)
  qed
  with ClaimNext inv [OF v] show ?thesis by simp
next
  case (Requeue i a e)
  have "count_status v Done (requeueJob i a e db) \<le> count_status v Done db"
    unfolding count_status_def requeueJob_def
    by (rule count_map_le) (auto simp: requeue_update_def split: if_splits)
  with Requeue inv [OF v] show ?thesis by simp
next
  case (MarkDone i t tf)
  then show ?thesis using done_bound_markDone [OF d inv v] by simp
next
  case (MarkError i t e)
  have "count_status v Done (markJobError i t e db) \<le> count_status v Done db"
    unfolding count_status_def markJobError_def
    by (rule count_map_le) (auto simp: error_update_def split: if_splits)
  with MarkError inv [OF v] show ?thesis by simp
qed

lemma done_bound_run: "v \<noteq> [] \<Longrightarrow> count_status v Done (run_ops ops []) \<le> 5"
proof (induction ops arbitrary: v rule: rev_induct)
  case Nil
  show ?case by (simp add: run_ops_def count_status_def)
next
  case (snoc operation ops)
  show ?case
    unfolding run_ops_snoc
    by (rule done_bound_op [OF distinct_run_ops snoc.IH snoc.prems])
qed

text \<open>
  C8. For a table with unique job ids and a job of a user with a non-empty id, markDone
  sets that row, and no other, to done with finished_at the clock reading and result_tf
  the given timeframe, and then prunes the user's done rows: at most 5 of them remain
  (exactly 5 when there were more), every done row that remains finished no earlier than
  every done row that was deleted, pruning only deletes, and the rows of other statuses
  or other users are the same as before the pruning. In every state reached by the store
  operations each such user has at most 5 done rows.
\<close>

theorem markDone_prunes:
  assumes d: "distinct (map job_id db)" and j: "j \<in> set db" and u: "user_id j \<noteq> []"
  shows "let upd = map (\<lambda>r. if r = j
                           then j\<lparr>status := Done, finished_at := Some t,
                                  result_tf := (if tf = [] then None else Some tf)\<rparr>
                           else r) db;
             db' = markJobDone (job_id j) t tf db
         in db' = pruneDoneJobHistory (user_id j) 5 upd
          \<and> count_status (user_id j) Done db' = min 5 (count_status (user_id j) Done upd)
          \<and> filter (\<lambda>r. \<not> (user_id r = user_id j \<and> status r = Done)) db'
              = filter (\<lambda>r. \<not> (user_id r = user_id j \<and> status r = Done)) upd
          \<and> set db' \<subseteq> set upd
          \<and> (\<forall>k\<in>set (done_of (user_id j) db'). \<forall>r\<in>set (done_of (user_id j) upd).
                r \<notin> set db' \<longrightarrow> finished_at r \<le> finished_at k)
          \<and> (\<forall>v ops. v \<noteq> [] \<longrightarrow> count_status v Done (run_ops ops []) \<le> 5)"
proof -
  let ?upd = "map (done_update (job_id j) t tf) db"
  have du: "distinct (map job_id ?upd)" using d by (simp add: comp_def)
  have m: "markJobDone (job_id j) t tf db = pruneDoneJobHistory (user_id j) 5 ?upd"
    using markDone_as_prune [OF d j, of t tf] u by simp
  have c: "count_status (user_id j) Done (pruneDoneJobHistory (user_id j) 5 ?upd)
             = min 5 (count_status (user_id j) Done ?upd)"
    using prune_done_count [OF du, of "user_id j" 5] by simp
  have s: "set (pruneDoneJobHistory (user_id j) 5 ?upd) \<subseteq> set ?upd"
    by (auto simp: pruneDoneJobHistory_def Let_def)
  have l: "\<forall>k\<in>set (done_of (user_id j) (pruneDoneJobHistory (user_id j) 5 ?upd)).
           \<forall>r\<in>set (done_of (user_id j) ?upd).
             r \<notin> set (pruneDoneJobHistory (user_id j) 5 ?upd) \<longrightarrow> finished_at r \<le> finished_at k"
    using prune_keeps_latest [OF du] by blast
  show ?thesis
    unfolding Let_def done_update_one_row [OF d j, symmetric] m
    using c s l prune_other_rows [of "user_id j" 5 ?upd] done_bound_run
    by blast
qed

lemma example_markDone:
  "markJobDone ''p'' 60 ''H4'' example_history =
     [finished_row ''d2'' ''U1'' 3 11 20,
      finished_row ''d3'' ''U1'' 4 21 30, finished_row ''d4'' ''U1'' 5 31 40,
      finished_row ''d5'' ''U1'' 6 41 50,
      in_flight_row\<lparr>status := Done, finished_at := Some 60, result_tf := Some ''H4''\<rparr>,
      new_row ''q'' ''U1'' ''q'' 8, finished_row ''o'' ''U2'' 9 12 13]"
  by (simp add: markJobDone_def Let_def done_update_def pruneDoneJobHistory_def
        order_by_finished_desc_def index_scan_def example_history_def finished_row_def in_flight_row_def
        new_row_def)

theorem markDone_prunes_witness:
  "distinct (map job_id example_history) \<and> in_flight_row \<in> set example_history
   \<and> user_id in_flight_row \<noteq> []
   \<and> markJobDone (job_id in_flight_row) 60 ''H4'' example_history =
       [finished_row ''d2'' ''U1'' 3 11 20,
        finished_row ''d3'' ''U1'' 4 21 30, finished_row ''d4'' ''U1'' 5 31 40,
        finished_row ''d5'' ''U1'' 6 41 50,
        in_flight_row\<lparr>status := Done, finished_at := Some 60, result_tf := Some ''H4''\<rparr>,
        new_row ''q'' ''U1'' ''q'' 8, finished_row ''o'' ''U2'' 9 12 13]
   \<and> count_status ''U1'' Done (markJobDone (job_id in_flight_row) 60 ''H4'' example_history) = 5"
  using markDone_prunes [where db = example_history and j = in_flight_row and t = 60 and tf = "''H4''"] example_markDone
  by (simp add: example_history_def finished_row_def in_flight_row_def new_row_def
        count_status_def)

subsection \<open>Enqueueing twice\<close>

lemma digit_val_char: "d < 10 \<Longrightarrow> digit_val (digit_char d) = d"
proof -
  assume "d < 10"
  then have "d \<in> {0, 1, 2, 3, 4, 5, 6, 7, 8, 9}" by auto
  then show ?thesis
    by (auto simp: digit_val_def digit_char_def)
qed

lemma digit_char_not_minus: "d < 10 \<Longrightarrow> digit_char d \<noteq> CHR ''-''"
proof -
  assume "d < 10"
  then have "d \<in> {0, 1, 2, 3, 4, 5, 6, 7, 8, 9}" by auto
  then show ?thesis
    by (auto simp: digit_char_def)
qed

lemma dec_val_snoc: "dec_val (cs @ [c]) = 10 * dec_val cs + digit_val c"
  by (simp add: dec_val_def)

lemma dec_val_dec_nat: "dec_val (dec_nat n) = n"
proof (induction n rule: dec_nat.induct)
  case (1 n)
  show ?case
  proof (cases "n < 10")
    case True
    then show ?thesis
      using dec_val_snoc [of "[]" "digit_char n"]
      by (simp add: dec_nat.simps [of n] digit_val_char dec_val_def)
  next
    case False
    then have "dec_val (dec_nat (n div 10)) = n div 10" using 1 by simp
    with False show ?thesis
      by (simp add: dec_nat.simps [of n] dec_val_snoc digit_val_char)
  qed
qed

lemma dec_nat_inj: "dec_nat a = dec_nat b \<Longrightarrow> a = b"
  by (metis dec_val_dec_nat)

lemma dec_nat_no_minus: "CHR ''-'' \<notin> set (dec_nat n)"
proof (induction n rule: dec_nat.induct)
  case (1 n)
  show ?case
  proof (cases "n < 10")
    case True
    then show ?thesis
      using digit_char_not_minus [of n] by (auto simp: dec_nat.simps [of n])
  next
    case False
    then have "CHR ''-'' \<notin> set (dec_nat (n div 10))" using 1 by simp
    with False show ?thesis
      using digit_char_not_minus [of "n mod 10"] by (auto simp: dec_nat.simps [of n])
  qed
qed

lemma numberToString_inj: "numberToString a = numberToString b \<Longrightarrow> a = b"
proof -
  assume e: "numberToString a = numberToString b"
  consider "a < 0" "b < 0" | "a < 0" "\<not> b < 0" | "\<not> a < 0" "b < 0" | "\<not> a < 0" "\<not> b < 0"
    by blast
  then show ?thesis
  proof cases
    case 1
    with e have "nat (- a) = nat (- b)" by (simp add: numberToString_def dec_nat_inj)
    with 1 show ?thesis by simp
  next
    case 2
    with e have "CHR ''-'' # dec_nat (nat (- a)) = dec_nat (nat b)"
      by (simp add: numberToString_def)
    then have "CHR ''-'' \<in> set (dec_nat (nat b))"
      by (metis list.set_intros(1))
    then show ?thesis using dec_nat_no_minus by blast
  next
    case 3
    with e have "dec_nat (nat a) = CHR ''-'' # dec_nat (nat (- b))"
      by (simp add: numberToString_def)
    then have "CHR ''-'' \<in> set (dec_nat (nat a))"
      by (metis list.set_intros(1))
    then show ?thesis using dec_nat_no_minus by blast
  next
    case 4
    with e have "nat a = nat b" by (simp add: numberToString_def dec_nat_inj)
    with 4 show ?thesis by simp
  qed
qed

lemma makeJobId_inj_time: "makeJobId a u m = makeJobId b u m \<longleftrightarrow> a = b"
  using numberToString_inj [of a b] by (auto simp: makeJobId_def)

lemma one_row_per_id:
  "distinct (map job_id db) \<Longrightarrow> i \<in> job_id ` set db \<Longrightarrow>
   length (filter (\<lambda>j. job_id j = i) db) = 1"
proof (induction db)
  case Nil
  then show ?case by simp
next
  case (Cons a db)
  show ?case
  proof (cases "job_id a = i")
    case True
    with Cons.prems have "i \<notin> job_id ` set db" by simp
    then have "\<forall>j\<in>set db. job_id j \<noteq> i" by blast
    then have "filter (\<lambda>j. job_id j = i) db = []" by (simp add: filter_empty_conv)
    with True show ?thesis by simp
  next
    case False
    with Cons show ?thesis by auto
  qed
qed

lemma enqueue_returns: "snd (enqueueAnalysisJob t c u m db) = (makeJobId t u m, c)"
  by (simp add: enqueueAnalysisJob_def Let_def)

lemma enqueue_has_id: "makeJobId t u m \<in> job_id ` set (fst (enqueueAnalysisJob t c u m db))"
  by (auto simp: enqueueAnalysisJob_def Let_def new_row_def)

lemma enqueue_keeps_rows: "set db \<subseteq> set (fst (enqueueAnalysisJob t c u m db))"
  by (auto simp: enqueueAnalysisJob_def Let_def)

lemma enqueue_existing:
  "makeJobId t u m \<in> job_id ` set db \<Longrightarrow> fst (enqueueAnalysisJob t c u m db) = db"
  by (simp add: enqueueAnalysisJob_def Let_def)

lemma id_absent: "i \<notin> job_id ` set db \<Longrightarrow> \<forall>x\<in>set db. job_id x \<noteq> i"
  by blast

lemma enqueue_fresh_row:
  assumes "makeJobId t1 u m \<notin> job_id ` set db"
  shows "filter (\<lambda>j. job_id j = makeJobId t1 u m)
           (fst (enqueueAnalysisJob t2 c2 u m (fst (enqueueAnalysisJob t1 c1 u m db))))
         = [new_row (makeJobId t1 u m) u m c1]"
proof -
  have "\<forall>x\<in>set db. job_id x \<noteq> makeJobId t1 u m" using assms by (rule id_absent)
  then have none: "filter (\<lambda>j. job_id j = makeJobId t1 u m) db = []"
    by (simp add: filter_empty_conv)
  show ?thesis
  proof (cases "t2 = t1")
    case True
    then show ?thesis
      using assms none by (simp add: enqueueAnalysisJob_def Let_def new_row_def)
  next
    case False
    then have "makeJobId t2 u m \<noteq> makeJobId t1 u m" by (simp add: makeJobId_inj_time)
    then show ?thesis
      using assms none by (simp add: enqueueAnalysisJob_def Let_def new_row_def)
  qed
qed

text \<open>
  C5, as the code has it. The job id is derived from the clock reading taken inside
  makeJobId, the last six characters of the user id and the message id, so enqueue is
  idempotent on that id, not on the pair of user and message. Enqueueing the same user
  and message twice into a table with unique ids: each call returns the id and the
  created_at it computed itself; the table keeps unique ids and exactly one row with the
  first id. When the second call reads the same clock value for the id, it inserts
  nothing and returns the same id, and with the same created_at reading it returns the
  same pair. When it reads a different clock value, the ids differ and there is a row for
  each. A row inserted by the first call carries the first call's created_at.
\<close>

theorem enqueue_idempotent_on_job_id:
  assumes d: "distinct (map job_id db)"
  shows "let e1 = enqueueAnalysisJob t1 c1 u m db;
             e2 = enqueueAnalysisJob t2 c2 u m (fst e1)
         in snd e1 = (makeJobId t1 u m, c1) \<and> snd e2 = (makeJobId t2 u m, c2)
          \<and> distinct (map job_id (fst e2))
          \<and> length (filter (\<lambda>j. job_id j = makeJobId t1 u m) (fst e2)) = 1
          \<and> (t2 = t1 \<longrightarrow> fst e2 = fst e1 \<and> fst (snd e2) = fst (snd e1))
          \<and> (t2 = t1 \<and> c2 = c1 \<longrightarrow> snd e2 = snd e1)
          \<and> (t2 \<noteq> t1 \<longrightarrow> fst (snd e2) \<noteq> fst (snd e1)
                \<and> length (filter (\<lambda>j. job_id j = makeJobId t2 u m) (fst e2)) = 1)
          \<and> (makeJobId t1 u m \<notin> job_id ` set db \<longrightarrow>
                filter (\<lambda>j. job_id j = makeJobId t1 u m) (fst e2)
                  = [new_row (makeJobId t1 u m) u m c1])"
proof -
  let ?e1 = "enqueueAnalysisJob t1 c1 u m db"
  let ?e2 = "enqueueAnalysisJob t2 c2 u m (fst ?e1)"
  have d1: "distinct (map job_id (fst ?e1))" using d by (rule job_ids_enqueue)
  have d2: "distinct (map job_id (fst ?e2))" using d1 by (rule job_ids_enqueue)
  have in1: "makeJobId t1 u m \<in> job_id ` set (fst ?e2)"
    using enqueue_has_id [of t1 u m c1 db] enqueue_keeps_rows [of "fst ?e1" t2 c2 u m] by blast
  have in2: "makeJobId t2 u m \<in> job_id ` set (fst ?e2)" by (rule enqueue_has_id)
  have same: "t2 = t1 \<Longrightarrow> fst ?e2 = fst ?e1"
    using enqueue_existing [OF enqueue_has_id [of t1 u m c1 db], of c2] by simp
  show ?thesis
    unfolding Let_def enqueue_returns
    using d2 one_row_per_id [OF d2 in1] one_row_per_id [OF d2 in2] same
          enqueue_fresh_row [of t1 u m db t2 c2 c1]
    by (simp add: makeJobId_inj_time)
qed

theorem enqueue_idempotent_on_job_id_witness:
  "distinct (map job_id ([] :: job list))
   \<and> fst (enqueueAnalysisJob 1 1 ''Uabcdef'' ''m1'' (fst (enqueueAnalysisJob 1 1 ''Uabcdef'' ''m1'' [])))
       = fst (enqueueAnalysisJob 1 1 ''Uabcdef'' ''m1'' [])
   \<and> snd (enqueueAnalysisJob 1 1 ''Uabcdef'' ''m1'' (fst (enqueueAnalysisJob 1 1 ''Uabcdef'' ''m1'' [])))
       = snd (enqueueAnalysisJob 1 1 ''Uabcdef'' ''m1'' [])
   \<and> fst (snd (enqueueAnalysisJob 2 2 ''Uabcdef'' ''m1'' (fst (enqueueAnalysisJob 1 1 ''Uabcdef'' ''m1'' []))))
       \<noteq> fst (snd (enqueueAnalysisJob 1 1 ''Uabcdef'' ''m1'' []))
   \<and> length (filter (\<lambda>j. job_id j = makeJobId 2 ''Uabcdef'' ''m1'')
        (fst (enqueueAnalysisJob 2 2 ''Uabcdef'' ''m1'' (fst (enqueueAnalysisJob 1 1 ''Uabcdef'' ''m1'' []))))) = 1"
  using enqueue_idempotent_on_job_id [of "[]" 1 1 "''Uabcdef''" "''m1''" 1 1]
        enqueue_idempotent_on_job_id [of "[]" 1 1 "''Uabcdef''" "''m1''" 2 2]
  by (simp add: Let_def enqueue_returns makeJobId_inj_time)

lemma job_id_example_2: "makeJobId 2 ''Uabcdef'' ''m1'' = ''2_abcdef_m1''"
  by (simp add: makeJobId_def numberToString_def dec_nat.simps digit_char_def slice_last_def)

text \<open>
  C5 as stated fails: the same user and message enqueued at clock readings 1 and 2 give
  two rows, and the second call returns a new job id and created_at.
\<close>

theorem enqueue_twice_counterexample:
  "fst (enqueueAnalysisJob 2 2 ''Uabcdef'' ''m1'' (fst (enqueueAnalysisJob 1 1 ''Uabcdef'' ''m1'' [])))
     = [new_row ''1_abcdef_m1'' ''Uabcdef'' ''m1'' 1, new_row ''2_abcdef_m1'' ''Uabcdef'' ''m1'' 2]
   \<and> snd (enqueueAnalysisJob 1 1 ''Uabcdef'' ''m1'' []) = (''1_abcdef_m1'', 1)
   \<and> snd (enqueueAnalysisJob 2 2 ''Uabcdef'' ''m1'' (fst (enqueueAnalysisJob 1 1 ''Uabcdef'' ''m1'' [])))
     = (''2_abcdef_m1'', 2)"
  by (simp add: enqueueAnalysisJob_def Let_def job_id_example_1 job_id_example_2 new_row_def)

section \<open>Properties of the job processor\<close>

subsection \<open>Retries\<close>

lemma insort_key_map_same_key:
  "(\<And>x. f (h x) = f x) \<Longrightarrow> insort_key f (h x) (map h ys) = map h (insort_key f x ys)"
  by (induction ys) auto

lemma sort_key_map_same_key:
  "(\<And>x. f (h x) = f x) \<Longrightarrow> sort_key f (map h xs) = map h (sort_key f xs)"
  by (induction xs) (simp_all add: insort_key_map_same_key)

lemma replace_row_filter:
  assumes "P j' = P j"
  shows "filter P (map (\<lambda>r. if r = j then j' else r) db)
           = map (\<lambda>r. if r = j then j' else r) (filter P db)"
  using assms by (induction db) auto

lemma requeue_after_claim:
  assumes d: "distinct (map job_id db)" and n: "j \<in> set db" and q: "status j = Queued"
  shows "requeueJob (job_id j) a msg (map (claim_update tc (job_id j)) db)
           = map (\<lambda>r. if r = j
                       then j\<lparr>attempt := a, started_at := None,
                              last_error := (if msg = [] then None else Some (take 800 msg))\<rparr>
                       else r) db"
  unfolding requeueJob_def map_map
proof (rule map_cong [OF refl])
  fix r assume r: "r \<in> set db"
  show "(requeue_update (job_id j) a msg \<circ> claim_update tc (job_id j)) r
          = (if r = j then j\<lparr>attempt := a, started_at := None,
                              last_error := (if msg = [] then None else Some (take 800 msg))\<rparr>
             else r)"
    using same_id_same_row [OF d r n] q
    by (auto simp: requeue_update_def claim_update_def)
qed

lemma error_after_claim:
  assumes d: "distinct (map job_id db)" and n: "j \<in> set db" and q: "status j = Queued"
  shows "markJobError (job_id j) t msg (map (claim_update tc (job_id j)) db)
           = map (\<lambda>r. if r = j
                       then j\<lparr>status := Error, started_at := Some tc, finished_at := Some t,
                              last_error := Some (take 800 msg)\<rparr>
                       else r) db"
  unfolding markJobError_def map_map
proof (rule map_cong [OF refl])
  fix r assume r: "r \<in> set db"
  show "(error_update (job_id j) t msg \<circ> claim_update tc (job_id j)) r
          = (if r = j then j\<lparr>status := Error, started_at := Some tc, finished_at := Some t,
                              last_error := Some (take 800 msg)\<rparr>
             else r)"
    using same_id_same_row [OF d r n] q
    by (auto simp: error_update_def claim_update_def)
qed

lemma replace_row_ids:
  "job_id j' = job_id j \<Longrightarrow> map job_id (map (\<lambda>r. if r = j then j' else r) db) = map job_id db"
  by (induction db) auto

lemma replace_row_count:
  "(user_id j' = u \<and> status j' = s) = (user_id j = u \<and> status j = s) \<Longrightarrow>
   count_status u s (map (\<lambda>r. if r = j then j' else r) db) = count_status u s db"
  unfolding count_status_def by (induction db) auto

lemma replace_row_member: "j \<in> set db \<Longrightarrow> j' \<in> set (map (\<lambda>r. if r = j then j' else r) db)"
  by (induction db) auto

lemma invocation_claims:
  assumes tok: "token_ok req" and body: "body_userId req = Some u" and u: "u \<noteq> []"
    and ne: "[] \<notin> job_id ` set (jobs s)"
    and idle: "count_status u Processing (jobs s) = 0"
    and head: "sort_key created_at (queued_of u (jobs s)) = j # rest"
  shows "handleInternalAnalyze e req w s =
           (case internalAnalyzeTask e u
                   \<lparr>cj_job_id = job_id j, cj_message_id = message_id j,
                    cj_created_at = created_at j, cj_attempt = attempt j,
                    cj_started_at = at_claim w\<rparr> w
                   (s\<lparr>jobs := map (claim_update (at_claim w) (job_id j)) (jobs s),
                      logs := saveAnalysis u ''_JOB'' (at_claim w) (Marker ''processing'') (logs s)\<rparr>) of
              (s', d, fired) \<Rightarrow> (s', 202, d, fired))"
proof -
  from head have "j \<in> set (jobs s)"
    using head_of_sorted_queue unfolding queued_of_def by blast
  with ne have "job_id j \<noteq> []" by force
  from claim_success [OF head this idle, of "at_claim w"] tok body u
  show ?thesis by (simp add: handleInternalAnalyze_def split: prod.splits)
qed

lemma invocation_retry:
  assumes tok: "token_ok req" and body: "body_userId req = Some u" and u: "u \<noteq> []"
    and d: "distinct (map job_id (jobs s))"
    and ne: "[] \<notin> job_id ` set (jobs s)"
    and idle: "count_status u Processing (jobs s) = 0"
    and head: "sort_key created_at (queued_of u (jobs s)) = j # rest"
    and fetch: "line_fetch w = Returns img"
    and fail: "primary w = Throws n m"
    and retryable: "is_timeout n \<or> retryable_message (error_text n m)"
    and le: "attempt j + 1 \<le> maxAttempts e"
  shows "\<exists>s'. handleInternalAnalyze e req w s = (s', 202, Retrying, True) \<and>
              jobs s' = map (\<lambda>r. if r = j
                                  then j\<lparr>attempt := attempt j + 1, started_at := None,
                                         last_error := (if error_text n m = [] then None
                                                        else Some (take 800 (error_text n m)))\<rparr>
                                  else r) (jobs s)"
proof -
  from head have nx: "j \<in> set (jobs s)" "status j = Queued"
    using head_of_sorted_queue unfolding queued_of_def by blast+
  show ?thesis
    unfolding invocation_claims [OF tok body u ne idle head]
    using retryable le requeue_after_claim [OF d nx, of "attempt j + 1" "error_text n m" "at_claim w"]
    by (simp add: internalAnalyzeTask_def fetch fail Let_def retry_job_def)
qed

lemma invocation_error:
  assumes tok: "token_ok req" and body: "body_userId req = Some u" and u: "u \<noteq> []"
    and d: "distinct (map job_id (jobs s))"
    and ne: "[] \<notin> job_id ` set (jobs s)"
    and idle: "count_status u Processing (jobs s) = 0"
    and head: "sort_key created_at (queued_of u (jobs s)) = j # rest"
    and fetch: "line_fetch w = Returns img"
    and fail: "primary w = Throws n m"
    and gt: "\<not> attempt j + 1 \<le> maxAttempts e"
  shows "\<exists>s' fired. handleInternalAnalyze e req w s = (s', 202, Errored, fired) \<and>
              jobs s' = map (\<lambda>r. if r = j
                                  then j\<lparr>status := Error, started_at := Some (at_claim w),
                                         finished_at := Some (at_finish w),
                                         last_error := Some (take 800 (error_text n m))\<rparr>
                                  else r) (jobs s)"
proof -
  from head have nx: "j \<in> set (jobs s)" "status j = Queued"
    using head_of_sorted_queue unfolding queued_of_def by blast+
  show ?thesis
    unfolding invocation_claims [OF tok body u ne idle head]
    using gt error_after_claim [OF d nx, of "at_finish w" "error_text n m" "at_claim w"]
    by (simp add: internalAnalyzeTask_def fetch fail Let_def fail_job_def)
qed

lemma fails_retryablyE:
  assumes "fails_retryably w"
  obtains img n m where "line_fetch w = Returns img" "primary w = Throws n m"
    "is_timeout n \<or> retryable_message (error_text n m)"
  using assms by (auto simp: fails_retryably_def split: outcome.splits)

lemma analyze_chain_step:
  "analyze_chain e req (w # ws) s =
     (fst (snd (snd (handleInternalAnalyze e req w s)))
        # fst (analyze_chain e req ws (fst (handleInternalAnalyze e req w s))),
      snd (analyze_chain e req ws (fst (handleInternalAnalyze e req w s))))"
  by (simp split: prod.splits)

lemma chain_retry:
  assumes tok: "token_ok req" and body: "body_userId req = Some u" and u: "u \<noteq> []"
  shows "\<forall>w\<in>set ws. fails_retryably w \<Longrightarrow>
         distinct (map job_id (jobs s)) \<Longrightarrow> [] \<notin> job_id ` set (jobs s) \<Longrightarrow>
         count_status u Processing (jobs s) = 0 \<Longrightarrow>
         sort_key created_at (queued_of u (jobs s)) = j # rest \<Longrightarrow>
         attempt j \<le> maxAttempts e \<Longrightarrow>
         length ws = nat (maxAttempts e - attempt j) + 1 \<Longrightarrow>
         fst (analyze_chain e req ws s) = replicate (nat (maxAttempts e - attempt j)) Retrying @ [Errored]
         \<and> (\<exists>r\<in>set (jobs (snd (analyze_chain e req ws s))).
               job_id r = job_id j \<and> status r = Error \<and> attempt r = maxAttempts e)"
proof (induction ws arbitrary: s j rest)
  case Nil
  then show ?case by simp
next
  case (Cons w ws)
  from Cons.prems(1) have "fails_retryably w" by simp
  then obtain img n m where w: "line_fetch w = Returns img" "primary w = Throws n m"
    "is_timeout n \<or> retryable_message (error_text n m)"
    by (rule fails_retryablyE)
  from Cons.prems(5) have nx: "j \<in> set (jobs s)" "user_id j = u" "status j = Queued"
    using head_of_sorted_queue unfolding queued_of_def by blast+
  show ?case
  proof (cases "attempt j + 1 \<le> maxAttempts e")
    case True
    let ?j' = "j\<lparr>attempt := attempt j + 1, started_at := None,
                  last_error := (if error_text n m = [] then None
                                 else Some (take 800 (error_text n m)))\<rparr>"
    let ?h = "\<lambda>r. if r = j then ?j' else r"
    from invocation_retry [OF tok body u Cons.prems(2,3,4,5) w True]
    obtain s1 where s1: "handleInternalAnalyze e req w s = (s1, 202, Retrying, True)"
      "jobs s1 = map ?h (jobs s)" by blast
    have ids: "map job_id (jobs s1) = map job_id (jobs s)"
      unfolding s1(2) by (rule replace_row_ids) simp
    have d1: "distinct (map job_id (jobs s1))"
      using Cons.prems(2) by (simp only: ids)
    have "set (map job_id (jobs s1)) = set (map job_id (jobs s))" by (simp only: ids)
    with Cons.prems(3) have e1: "[] \<notin> job_id ` set (jobs s1)" by simp
    have "count_status u Processing (jobs s1) = count_status u Processing (jobs s)"
      unfolding s1(2) by (rule replace_row_count) (simp add: nx)
    with Cons.prems(4) have p1: "count_status u Processing (jobs s1) = 0" by simp
    have "queued_of u (jobs s1) = map ?h (queued_of u (jobs s))"
      unfolding queued_of_def s1(2) by (rule replace_row_filter) simp
    then have h1: "sort_key created_at (queued_of u (jobs s1)) = ?j' # map ?h rest"
      using Cons.prems(5) by (simp add: sort_key_map_same_key)
    have a1: "attempt ?j' \<le> maxAttempts e" using True by simp
    have l1: "length ws = nat (maxAttempts e - attempt ?j') + 1"
      using Cons.prems(7) True by simp
    note IH = Cons.IH [OF _ d1 e1 p1 h1 a1 l1]
    have rep: "nat (maxAttempts e - attempt j) = Suc (nat (maxAttempts e - attempt ?j'))"
      using True by simp
    from Cons.prems(1) IH show ?thesis
      by (simp add: analyze_chain_step s1(1) rep del: analyze_chain.simps)
  next
    case False
    with Cons.prems(6) have eq: "attempt j = maxAttempts e" by simp
    with Cons.prems(7) have ws: "ws = []" by simp
    from invocation_error [OF tok body u Cons.prems(2,3,4,5) w(1,2) False]
    obtain s1 fired where s1: "handleInternalAnalyze e req w s = (s1, 202, Errored, fired)"
      "jobs s1 = map (\<lambda>r. if r = j
                           then j\<lparr>status := Error, started_at := Some (at_claim w),
                                  finished_at := Some (at_finish w),
                                  last_error := Some (take 800 (error_text n m))\<rparr>
                           else r) (jobs s)" by blast
    have "j\<lparr>status := Error, started_at := Some (at_claim w), finished_at := Some (at_finish w),
            last_error := Some (take 800 (error_text n m))\<rparr> \<in> set (jobs s1)"
      unfolding s1(2) using nx(1) by (rule replace_row_member)
    then have "\<exists>r\<in>set (jobs s1). job_id r = job_id j \<and> status r = Error \<and> attempt r = maxAttempts e"
      using eq by (intro bexI [where x = "j\<lparr>status := Error, started_at := Some (at_claim w),
            finished_at := Some (at_finish w),
            last_error := Some (take 800 (error_text n m))\<rparr>"]) simp_all
    then show ?thesis
      using eq by (simp add: ws analyze_chain_step s1(1) del: analyze_chain.simps(2))
  qed
qed

lemma chain_requeues:
  assumes tok: "token_ok req" and body: "body_userId req = Some u" and u: "u \<noteq> []"
  shows "\<forall>w\<in>set ws. fails_retryably w \<Longrightarrow>
         distinct (map job_id (jobs s)) \<Longrightarrow> [] \<notin> job_id ` set (jobs s) \<Longrightarrow>
         count_status u Processing (jobs s) = 0 \<Longrightarrow>
         sort_key created_at (queued_of u (jobs s)) = j # rest \<Longrightarrow>
         attempt j + int (length ws) \<le> maxAttempts e \<Longrightarrow>
         fst (analyze_chain e req ws s) = replicate (length ws) Retrying
         \<and> (\<exists>r\<in>set (jobs (snd (analyze_chain e req ws s))).
               job_id r = job_id j \<and> status r = Queued \<and> attempt r = attempt j + int (length ws))"
proof (induction ws arbitrary: s j rest)
  case Nil
  from Nil.prems(5) have "j \<in> set (jobs s)" "status j = Queued"
    using head_of_sorted_queue unfolding queued_of_def by blast+
  then show ?case by auto
next
  case (Cons w ws)
  from Cons.prems(1) have "fails_retryably w" by simp
  then obtain img n m where w: "line_fetch w = Returns img" "primary w = Throws n m"
    "is_timeout n \<or> retryable_message (error_text n m)"
    by (rule fails_retryablyE)
  from Cons.prems(5) have nx: "j \<in> set (jobs s)" "user_id j = u" "status j = Queued"
    using head_of_sorted_queue unfolding queued_of_def by blast+
  from Cons.prems(6) have le: "attempt j + 1 \<le> maxAttempts e" by simp
  let ?j' = "j\<lparr>attempt := attempt j + 1, started_at := None,
                last_error := (if error_text n m = [] then None
                               else Some (take 800 (error_text n m)))\<rparr>"
  let ?h = "\<lambda>r. if r = j then ?j' else r"
  from invocation_retry [OF tok body u Cons.prems(2,3,4,5) w le]
  obtain s1 where s1: "handleInternalAnalyze e req w s = (s1, 202, Retrying, True)"
    "jobs s1 = map ?h (jobs s)" by blast
  have ids: "map job_id (jobs s1) = map job_id (jobs s)"
    unfolding s1(2) by (rule replace_row_ids) simp
  have d1: "distinct (map job_id (jobs s1))"
    using Cons.prems(2) by (simp only: ids)
  have "set (map job_id (jobs s1)) = set (map job_id (jobs s))" by (simp only: ids)
  with Cons.prems(3) have e1: "[] \<notin> job_id ` set (jobs s1)" by simp
  have "count_status u Processing (jobs s1) = count_status u Processing (jobs s)"
    unfolding s1(2) by (rule replace_row_count) (simp add: nx)
  with Cons.prems(4) have p1: "count_status u Processing (jobs s1) = 0" by simp
  have "queued_of u (jobs s1) = map ?h (queued_of u (jobs s))"
    unfolding queued_of_def s1(2) by (rule replace_row_filter) simp
  then have h1: "sort_key created_at (queued_of u (jobs s1)) = ?j' # map ?h rest"
    using Cons.prems(5) by (simp add: sort_key_map_same_key)
  have a1: "attempt ?j' + int (length ws) \<le> maxAttempts e" using Cons.prems(6) by simp
  note IH = Cons.IH [OF _ d1 e1 p1 h1 a1]
  from Cons.prems(1) IH show ?case
    by (simp add: analyze_chain_step s1(1) add.assoc del: analyze_chain.simps)
qed

lemma server_error_is_retryable: "fails_with_server_error w \<Longrightarrow> fails_retryably w"
  by (auto simp: fails_with_server_error_def fails_retryably_def split: outcome.splits)

lemma performAnalysisInBackground_eq:
  "performAnalysisInBackground e userId job w s =
     (case acquire_image e userId job w s of
        Inl msg \<Rightarrow> fail_job userId job msg w s
      | Inr img \<Rightarrow>
          (let s1 = s\<lparr>kv := saveImageToKV (ANALYSIS_KV e) userId (cj_job_id job) img (kv s)\<rparr>
           in case primary w of
                Returns a \<Rightarrow> persist_and_complete True e userId job a w s1
              | Throws n m \<Rightarrow>
                  if is_timeout n
                  then persist_and_complete True e userId job
                         (fst (timeout_recovery e userId job w s1)) w s1
                  else
                    (let msg = error_text n m;
                         retryable = retryable_message msg;
                         nextAttempt = cj_attempt job + 1
                     in if retryable \<and> nextAttempt \<le> maxAttempts e
                        then retry_job userId job nextAttempt msg w s1
                        else fail_job userId job msg w s1)))"
  by (simp add: performAnalysisInBackground_def performAnalysisInBackground_calls_def Let_def
        split: sum.splits outcome.splits prod.splits)

lemma background_server_error:
  assumes "fails_with_server_error w"
  shows "\<exists>msg img. performAnalysisInBackground e u job w s =
           (if cj_attempt job + 1 \<le> maxAttempts e
            then retry_job u job (cj_attempt job + 1) msg w
                   (s\<lparr>kv := saveImageToKV (ANALYSIS_KV e) u (cj_job_id job) img (kv s)\<rparr>)
            else fail_job u job msg w
                   (s\<lparr>kv := saveImageToKV (ANALYSIS_KV e) u (cj_job_id job) img (kv s)\<rparr>))"
  using assms
  by (auto simp: fails_with_server_error_def performAnalysisInBackground_eq acquire_image_def
        Let_def split: outcome.splits)

text \<open>
  C3. The job at the head of a user's queue, with attempt 0, in a table with unique,
  non-empty ids where the user has no job in flight; every invocation of
  handleInternalAnalyze (worker.js) fetches the image and its analysis call fails with a
  rate-limit or server error. Then the first max_attempts invocations each requeue the
  job, after the k-th of them the job is queued with attempt k, and the next invocation
  marks it error with attempt max_attempts: no invocation completes it, and attempt
  never exceeds max_attempts. performAnalysisInBackground (handlers.js) decides the same
  way for a claimed job: requeue with attempt + 1 while attempt + 1 is at most
  max_attempts, markError otherwise.
\<close>

theorem retry_bound:
  assumes "token_ok req" and "body_userId req = Some u" and "u \<noteq> []"
    and "distinct (map job_id (jobs s))" and "[] \<notin> job_id ` set (jobs s)"
    and "count_status u Processing (jobs s) = 0"
    and "sort_key created_at (queued_of u (jobs s)) = j # rest"
    and "attempt j = 0"
    and "\<forall>w\<in>set ws. fails_with_server_error w"
    and "length ws = nat (maxAttempts e) + 1"
  shows "fst (analyze_chain e req ws s) = replicate (nat (maxAttempts e)) Retrying @ [Errored]
       \<and> (\<forall>k\<le>nat (maxAttempts e).
            \<exists>r\<in>set (jobs (snd (analyze_chain e req (take k ws) s))).
               job_id r = job_id j \<and> status r = Queued \<and> attempt r = int k)
       \<and> (\<exists>r\<in>set (jobs (snd (analyze_chain e req ws s))).
            job_id r = job_id j \<and> status r = Error \<and> attempt r = maxAttempts e)
       \<and> (\<forall>job w' s'. fails_with_server_error w' \<longrightarrow>
            (\<exists>msg s1. jobs s1 = jobs s' \<and>
               performAnalysisInBackground e u job w' s' =
                 (if cj_attempt job + 1 \<le> maxAttempts e
                  then retry_job u job (cj_attempt job + 1) msg w' s1
                  else fail_job u job msg w' s1)))"
proof (intro conjI allI impI)
  have r: "\<forall>w\<in>set ws. fails_retryably w"
    using assms(9) server_error_is_retryable by blast
  have m: "0 \<le> maxAttempts e" by (simp add: maxAttempts_def)
  from chain_retry [OF assms(1,2,3) r assms(4,5,6,7), of e] assms(8,10) m
  show "fst (analyze_chain e req ws s) = replicate (nat (maxAttempts e)) Retrying @ [Errored]"
    and "\<exists>r\<in>set (jobs (snd (analyze_chain e req ws s))).
            job_id r = job_id j \<and> status r = Error \<and> attempt r = maxAttempts e"
    by simp_all
next
  fix k assume k: "k \<le> nat (maxAttempts e)"
  have r: "\<forall>w\<in>set (take k ws). fails_retryably w"
    using assms(9) server_error_is_retryable by (meson in_set_takeD)
  have l: "length (take k ws) = k" using k assms(10) by simp
  have "1 \<le> maxAttempts e" by (simp add: maxAttempts_def)
  then have "attempt j + int (length (take k ws)) \<le> maxAttempts e"
    unfolding l assms(8) using k by linarith
  from chain_requeues [OF assms(1,2,3) r assms(4,5,6,7) this]
  show "\<exists>r\<in>set (jobs (snd (analyze_chain e req (take k ws) s))).
          job_id r = job_id j \<and> status r = Queued \<and> attempt r = int k"
    using l assms(8) by simp
next
  fix job w' s' assume "fails_with_server_error w'"
  from background_server_error [OF this, of e u job s']
  obtain msg img where p: "performAnalysisInBackground e u job w' s' =
           (if cj_attempt job + 1 \<le> maxAttempts e
            then retry_job u job (cj_attempt job + 1) msg w'
                   (s'\<lparr>kv := saveImageToKV (ANALYSIS_KV e) u (cj_job_id job) img (kv s')\<rparr>)
            else fail_job u job msg w'
                   (s'\<lparr>kv := saveImageToKV (ANALYSIS_KV e) u (cj_job_id job) img (kv s')\<rparr>))"
    by blast
  show "\<exists>msg s1. jobs s1 = jobs s' \<and>
          performAnalysisInBackground e u job w' s' =
            (if cj_attempt job + 1 \<le> maxAttempts e
             then retry_job u job (cj_attempt job + 1) msg w' s1
             else fail_job u job msg w' s1)"
    by (rule exI [where x = msg],
        rule exI [where x = "s'\<lparr>kv := saveImageToKV (ANALYSIS_KV e) u (cj_job_id job) img (kv s')\<rparr>"])
       (simp add: p)
qed

lemma rate_limited_fails: "fails_with_server_error rate_limited"
  by (simp add: fails_with_server_error_def rate_limited_def is_timeout_def
        retryable_message_def error_text_def)

lemma example_maxAttempts: "maxAttempts example_env = 2"
  by (simp add: maxAttempts_def example_env_def)

theorem retry_bound_witness:
  "token_ok example_request \<and> body_userId example_request = Some ''U1''
   \<and> distinct (map job_id (jobs example_queue))
   \<and> count_status ''U1'' Processing (jobs example_queue) = 0
   \<and> sort_key created_at (queued_of ''U1'' (jobs example_queue)) = [new_row ''j1'' ''U1'' ''m1'' 1]
   \<and> attempt (new_row ''j1'' ''U1'' ''m1'' 1) = 0
   \<and> fails_with_server_error rate_limited
   \<and> length [rate_limited, rate_limited, rate_limited] = nat (maxAttempts example_env) + 1
   \<and> fst (analyze_chain example_env example_request
             [rate_limited, rate_limited, rate_limited] example_queue)
       = [Retrying, Retrying, Errored]"
  using retry_bound [where req = example_request and u = "''U1''" and s = example_queue
          and j = "new_row ''j1'' ''U1'' ''m1'' 1" and rest = "[]" and e = example_env
          and ws = "[rate_limited, rate_limited, rate_limited]", THEN conjunct1]
  by (simp add: rate_limited_fails example_maxAttempts example_request_def example_queue_def
        new_row_def count_status_def queued_of_def numeral_2_eq_2)

subsection \<open>Timeouts\<close>






lemma buildToStore_flags [simp]:
  "buildToStore (a\<lparr>analysis_timeout := x\<rparr>) = buildToStore a"
  "buildToStore (a\<lparr>recovery_failed := y\<rparr>) = buildToStore a"
  "buildToStore (a\<lparr>recovery_attempt := z\<rparr>) = buildToStore a"
  by (simp_all add: buildToStore_def)

lemma forceWait_flags [simp]:
  "forceWaitOnRequest (a\<lparr>analysis_timeout := x\<rparr>) st = forceWaitOnRequest a st"
  "forceWaitOnRequest (a\<lparr>recovery_failed := y\<rparr>) st = forceWaitOnRequest a st"
  "forceWaitOnRequest (a\<lparr>recovery_attempt := z\<rparr>) st = forceWaitOnRequest a st"
  by (simp_all add: forceWaitOnRequest_def)

lemma forceWait_detected_tf [simp]:
  "st_detected_tf (forceWaitOnRequest a st) = st_detected_tf st"
  by (simp add: forceWaitOnRequest_def split: tf_request.splits list.splits)











lemma existingRows_sorted: "sorted (map lg_tf (existingRows u rows))"
  by (simp add: existingRows_def getAllAnalyses_def sorted_filter)

lemma existingRows_set:
  "set (existingRows u rows) = {r \<in> set rows. lg_user r = u \<and> take 1 (lg_tf r) \<noteq> ''_''}"
  by (auto simp: existingRows_def getAllAnalyses_def)

text \<open>
  The context of the fallback is the user's stored analysis with the least timeframe
  label, whenever it was stored.
\<close>

lemma context_least:
  assumes "existingRows u rows = r # rest" and "r' \<in> set rows" and "lg_user r' = u"
    and "take 1 (lg_tf r') \<noteq> ''_''"
  shows "lg_tf r \<le> lg_tf r'"
proof -
  from assms(2,3,4) have "r' \<in> set (existingRows u rows)" by (simp add: existingRows_set)
  with assms(1) have "r' = r \<or> r' \<in> set rest" by auto
  moreover from existingRows_sorted [of u rows] assms(1)
  have "\<forall>x\<in>set rest. lg_tf r \<le> lg_tf x" by simp
  ultimately show ?thesis by auto
qed

lemma example_context_order: "map lg_tf (existingRows ''U1'' example_logs) = [''H4'', ''M15'']"
  by (simp add: existingRows_def getAllAnalyses_def example_logs_def)

lemma example_fallback_context:
  "st_trade_setup (buildToStore (createFallbackAnalysis ''Unknown''
       (recentContext (existingRows ''U1'' example_logs)))) = [(''action'', JStr ''BUY'')]"
  by (simp add: existingRows_def getAllAnalyses_def example_logs_def recentContext_def
        createFallbackAnalysis_def buildToStore_def stored_example_def Let_def)









subsection \<open>Terminal states\<close>





















subsection \<open>A request for a fresher chart\<close>

lemma job_id_example_U1: "makeJobId 10 ''U1'' ''m1'' = ''10_U1_m1''"
  by (simp add: makeJobId_def numberToString_def dec_nat.simps digit_char_def slice_last_def)

text \<open>
  The background paths: a result that asks for a fresher chart is stored with the action
  forced to WAIT, the confidence to Low and one more trace entry, and the job is marked
  done.
\<close>

lemma obj_set_same: "map_of (obj_set k v ob) k = Some v"
  by (induction ob) auto

lemma obj_set_other: "k' \<noteq> k \<Longrightarrow> map_of (obj_set k v ob) k' = map_of ob k'"
  by (induction ob) auto

lemma background_forces_wait:
  assumes "request_update_for_tf a = RequestList (x # xs)"
  shows "map_of (st_trade_setup (forceWaitOnRequest a st)) ''action'' = Some (JStr ''WAIT'')
       \<and> map_of (st_trade_setup (forceWaitOnRequest a st)) ''confidence'' = Some (JStr ''Low'')
       \<and> st_reasoning_trace (forceWaitOnRequest a st)
           = st_reasoning_trace st
             @ [''Decision: WAIT ('' @ need_more_tf_text @ '': '' @ join_comma (x # xs) @ '')'']"
  using assms by (simp add: forceWaitOnRequest_def obj_set_same obj_set_other)

lemma background_completes:
  "persist_and_complete cl e u job a w s = (s', d, fired) \<Longrightarrow>
   d = Completed
   \<and> jobs s' = markJobDone (cj_job_id job) (at_finish w)
                  (st_detected_tf (buildToStore a)) (jobs s)
   \<and> logs s' = saveAnalysis u ''_JOB'' (at_marker w) (Marker ''done'')
                  (saveAnalysis u (st_detected_tf (buildToStore a)) (at_save w)
                     (Analysis (forceWaitOnRequest a (buildToStore a))) (logs s))"
  by (auto simp: persist_and_complete_def Let_def)

text \<open>
  C7 at the failing input. User \<open>U1\<close> has no job and sends an image; the analysis on the
  fast path of handleEvent (worker.js) returns a result that asks for a fresh H4 chart.
  The handler answers with the warning and returns: the job stays processing and nothing
  is stored, where the claim has the result persisted and the job done.
\<close>

theorem fast_path_leaves_request_in_flight:
  "handleEvent_image example_env ''U1'' ''m1'' wants_fresh_chart empty_store
     = (\<lparr>jobs = [(new_row ''10_U1_m1'' ''U1'' ''m1'' 10)\<lparr>status := Processing, started_at := Some 11\<rparr>],
         logs = [], kv = []\<rparr>,
        WarningReply ''H4'', False)"
  by (simp add: handleEvent_image_def enqueueAnalysisJob_def job_id_example_U1 Let_def
        wants_fresh_chart_def asks_for_h4_def empty_store_def getUserQueueStats_def
        count_status_def new_row_def fast_path_update_def)

section \<open>Properties of the estimate\<close>

lemma mset_order_desc: "mset (order_by_finished_desc xs) = mset xs"
proof -
  have "mset (filter (\<lambda>j. finished_at j \<noteq> None) (index_scan xs))
          + mset (filter (\<lambda>j. \<not> finished_at j \<noteq> None) (index_scan xs)) = mset (index_scan xs)"
    by (simp only: mset_filter multiset_partition [symmetric])
  then show ?thesis by (simp add: order_by_finished_desc_def index_scan_def)
qed

lemma has_duration_iff:
  "has_duration u j \<longleftrightarrow>
     user_id j = u \<and> status j = Done \<and> started_at j \<noteq> None \<and> finished_at j \<noteq> None
     \<and> the (started_at j) \<le> the (finished_at j)"
  by (simp add: has_duration_def)

lemma finished_order:
  "finished_at k \<noteq> None \<Longrightarrow> finished_at r \<noteq> None \<Longrightarrow> finished_at r \<le> finished_at k \<Longrightarrow>
   the (finished_at r) \<le> the (finished_at k)"
  by (cases "finished_at k"; cases "finished_at r") simp_all

lemma sorted_usable:
  "sorted_wrt (\<lambda>a b. the (finished_at b) \<le> the (finished_at a))
     (order_by_finished_desc (filter (has_duration u) db))"
proof -
  let ?L = "order_by_finished_desc (filter (has_duration u) db)"
  have n: "\<And>k. k \<in> set ?L \<Longrightarrow> finished_at k \<noteq> None" by (simp add: has_duration_def)
  show ?thesis
    by (rule sorted_wrt_mono_rel [OF _ sorted_order_desc]) (rule finished_order [OF n n])
qed

lemma recent_rows_spec:
  "\<exists>L. mset L = mset (filter (\<lambda>j. user_id j = u \<and> status j = Done \<and> started_at j \<noteq> None
                                   \<and> finished_at j \<noteq> None
                                   \<and> the (started_at j) \<le> the (finished_at j)) db)
      \<and> sorted_wrt (\<lambda>a b. the (finished_at b) \<le> the (finished_at a)) L
      \<and> recent_rows u db = take 5 L"
proof -
  have "filter (has_duration u) db
          = filter (\<lambda>j. user_id j = u \<and> status j = Done \<and> started_at j \<noteq> None
                        \<and> finished_at j \<noteq> None \<and> the (started_at j) \<le> the (finished_at j)) db"
    by (rule filter_cong) (simp_all add: has_duration_iff)
  then have "mset (order_by_finished_desc (filter (has_duration u) db))
          = mset (filter (\<lambda>j. user_id j = u \<and> status j = Done \<and> started_at j \<noteq> None
                                \<and> finished_at j \<noteq> None
                                \<and> the (started_at j) \<le> the (finished_at j)) db)"
    by (simp only: mset_order_desc)
  with sorted_usable [of u db] show ?thesis
    unfolding recent_rows_def by blast
qed

lemma no_history_no_durations:
  "\<forall>j\<in>set db. \<not> (user_id j = u \<and> status j = Done) \<Longrightarrow> recent_durations u db = []"
proof -
  assume "\<forall>j\<in>set db. \<not> (user_id j = u \<and> status j = Done)"
  then have "filter (has_duration u) db = []"
    by (auto simp: filter_empty_conv has_duration_def)
  then show ?thesis
    by (simp add: recent_durations_def recent_rows_def order_by_finished_desc_def index_scan_def)
qed

text \<open>
  C9, as the code has it. The rows that enter the estimate are the first five of the
  user's usable done rows, those with both timestamps and finished_at not before
  started_at, arranged by descending finished_at: the up to five most recently finished
  ones. The durations are the positive differences finished_at - started_at of these
  rows. The estimate is their average in seconds, clamped to the range 15 to 180, when
  there is such a duration. It is the fallback, the larger of 10 and the configured
  seconds per image (45 when unset), when there is none, in particular when the user has
  no done row, and when the store is absent or fails the query. The estimator is a
  function of the table that returns a number and nothing else.
\<close>

theorem estimate_seconds:
  "(let fallback = max 10 (case setting of None \<Rightarrow> 45 | Some x \<Rightarrow> if x = 0 then 45 else x);
        durations = recent_durations u db;
        estimate = estimateSecondsPerImage setting u (Rows db)
    in estimateSecondsPerImage setting u NoDB = fallback
     \<and> estimateSecondsPerImage setting u QueryFails = fallback
     \<and> (\<exists>L. mset L = mset (filter (\<lambda>j. user_id j = u \<and> status j = Done \<and> started_at j \<noteq> None
                                           \<and> finished_at j \<noteq> None
                                           \<and> the (started_at j) \<le> the (finished_at j)) db)
            \<and> sorted_wrt (\<lambda>a b. the (finished_at b) \<le> the (finished_at a)) L
            \<and> recent_rows u db = take 5 L)
     \<and> durations = filter (\<lambda>n. 0 < n)
                      (map (\<lambda>j. the (finished_at j) - the (started_at j)) (recent_rows u db))
     \<and> ((\<forall>j\<in>set db. \<not> (user_id j = u \<and> status j = Done)) \<longrightarrow> estimate = fallback)
     \<and> (durations = [] \<longrightarrow> estimate = fallback)
     \<and> (durations \<noteq> [] \<longrightarrow>
          estimate = min 180 (max 15 (real_of_int (sum_list durations) / real (length durations) / 1000))
          \<and> 15 \<le> estimate \<and> estimate \<le> 180))"
proof -
  have d: "recent_durations u db
             = filter (\<lambda>n. 0 < n)
                 (map (\<lambda>j. the (finished_at j) - the (started_at j)) (recent_rows u db))"
    unfolding recent_durations_def
    by (rule arg_cong [where f = "filter (\<lambda>n. 0 < n)"]) (simp add: dur_ms_def)
  have f: "est_fallback setting
             = max 10 (case setting of None \<Rightarrow> 45 | Some x \<Rightarrow> if x = 0 then 45 else x)"
    by (simp add: est_fallback_def)
  have e: "estimateSecondsPerImage setting u (Rows db)
             = (if recent_durations u db = [] then est_fallback setting
                else min 180 (max 15 (real_of_int (sum_list (recent_durations u db))
                                      / real (length (recent_durations u db)) / 1000)))"
    by (simp add: estimateSecondsPerImage_def Let_def)
  have n: "estimateSecondsPerImage setting u NoDB = est_fallback setting"
    "estimateSecondsPerImage setting u QueryFails = est_fallback setting"
    by (simp_all add: estimateSecondsPerImage_def Let_def)
  show ?thesis
    unfolding Let_def
    using recent_rows_spec [of u db] d [symmetric] no_history_no_durations [of db u]
    by (simp add: e n f)
qed

lemma example_timed_rows:
  "map job_id (recent_rows ''U1'' example_timed) = [''f'', ''e'', ''d'', ''c'', ''b'']"
  by (simp add: recent_rows_def example_timed_def finished_row_def new_row_def
        has_duration_def order_by_finished_desc_def index_scan_def)

lemma example_timed_durations:
  "recent_durations ''U1'' example_timed = [20000, 20000, 20000, 20000, 20000]"
  "recent_durations ''U2'' example_timed = []"
  by (simp_all add: recent_durations_def recent_rows_def example_timed_def finished_row_def
        new_row_def has_duration_def dur_ms_def order_by_finished_desc_def index_scan_def)

lemma example_timed_other_user:
  "list_all (\<lambda>j. \<not> (user_id j = ''U9'' \<and> status j = Done)) example_timed"
  by (simp add: example_timed_def finished_row_def new_row_def)

theorem estimate_seconds_witness:
  "estimateSecondsPerImage None ''U1'' NoDB = 45
   \<and> estimateSecondsPerImage None ''U1'' QueryFails = 45
   \<and> list_all (\<lambda>j. \<not> (user_id j = ''U9'' \<and> status j = Done)) example_timed
   \<and> estimateSecondsPerImage None ''U9'' (Rows example_timed) = 45
   \<and> recent_durations ''U2'' example_timed = []
   \<and> estimateSecondsPerImage None ''U2'' (Rows example_timed) = 45
   \<and> map job_id (recent_rows ''U1'' example_timed) = [''f'', ''e'', ''d'', ''c'', ''b'']
   \<and> recent_durations ''U1'' example_timed = [20000, 20000, 20000, 20000, 20000]
   \<and> estimateSecondsPerImage None ''U1'' (Rows example_timed) = 20"
proof -
  note T = estimate_seconds [where setting = None and db = example_timed, unfolded Let_def]
  have a: "estimateSecondsPerImage None ''U1'' NoDB = 45"
    "estimateSecondsPerImage None ''U1'' QueryFails = 45"
    using T [of "''U1''"] by simp_all
  have b: "estimateSecondsPerImage None ''U9'' (Rows example_timed) = 45"
    using T [of "''U9''"] example_timed_other_user by (simp add: list_all_iff)
  have c: "estimateSecondsPerImage None ''U2'' (Rows example_timed) = 45"
    using T [of "''U2''"] example_timed_durations(2) by simp
  have d: "estimateSecondsPerImage None ''U1'' (Rows example_timed) = 20"
    using T [of "''U1''"] example_timed_durations(1) by simp
  show ?thesis
    using a b c d example_timed_other_user example_timed_durations example_timed_rows
    by (intro conjI)
qed

text \<open>
  C9 as stated fails: with 5 seconds configured and no completion history the estimate
  is 10, not the configured value.
\<close>

theorem estimate_default_counterexample:
  "done_of ''U1'' [] = []
   \<and> estimateSecondsPerImage (Some 5) ''U1'' (Rows []) = 10
   \<and> estimateSecondsPerImage (Some 5) ''U1'' (Rows []) \<noteq> 5"
  by (simp add: done_of_def estimateSecondsPerImage_def est_fallback_def recent_durations_def
        recent_rows_def order_by_finished_desc_def index_scan_def)

end
